theory Spec2Isabelle
  imports Main "HOL-Library.Multiset" "HOL-Library.Char_ord" "HOL-Library.List_Lexorder"
begin

section \<open>Players and their order\<close>

text \<open>
  The structure \<open>Player\<close> has the two members \<open>name_\<close> (a \<open>std::string\<close>) and
  \<open>level_\<close> (a \<open>size_t\<close>, the score), here \<open>name\<close> and \<open>level\<close> (an Isabelle
  name cannot end with an underscore).  Levels are modelled as natural numbers.
\<close>

datatype Player = Player (name: string) (level: nat)

text \<open>
  Modelled from the spec: the header declaring \<open>Player\<close> and its comparison operators is
  not among the sources.  The specification gives the order as "total order: primary
  key = score ascending", with "ties broken by identity/name": players are compared by
  level first and by name (lexicographically, byte by byte) second.
\<close>

definition player_key :: "Player \<Rightarrow> nat \<times> string" where
  "player_key p = (level p, name p)"

definition key_le :: "nat \<times> string \<Rightarrow> nat \<times> string \<Rightarrow> bool" where
  "key_le a b = (fst a < fst b \<or> (fst a = fst b \<and> snd a \<le> snd b))"

instantiation Player :: linorder
begin

definition less_eq_Player :: "Player \<Rightarrow> Player \<Rightarrow> bool" where
  "less_eq_Player p q = key_le (player_key p) (player_key q)"

definition less_Player :: "Player \<Rightarrow> Player \<Rightarrow> bool" where
  "less_Player p q = (key_le (player_key p) (player_key q) \<and> p \<noteq> q)"

instance
proof
  fix x y z :: Player
  show "(x < y) = (x \<le> y \<and> \<not> y \<le> x)"
    by (cases x; cases y)
      (auto simp: less_Player_def less_eq_Player_def key_le_def player_key_def)
  show "x \<le> x"
    by (simp add: less_eq_Player_def key_le_def)
  show "x \<le> y \<Longrightarrow> y \<le> z \<Longrightarrow> x \<le> z"
    by (auto simp: less_eq_Player_def key_le_def player_key_def)
  show "x \<le> y \<Longrightarrow> y \<le> x \<Longrightarrow> x = y"
    by (cases x; cases y) (auto simp: less_eq_Player_def key_le_def player_key_def)
  show "x \<le> y \<or> y \<le> x"
    by (auto simp: less_eq_Player_def key_le_def player_key_def)
qed

end

section \<open>The vector-backed player stream\<close>

text \<open>
  \<open>VectorPlayerStream\<close> holds a copy of a vector (the member \<open>players_\<close>, here
  \<open>stream_players\<close>) and the index of the next player.
  Both members are private: the only states a stream can be in are those the
  constructor and \<open>nextPlayer\<close> produce.
\<close>

record VectorPlayerStream =
  stream_players :: "Player list"
  currIndex :: nat

datatype error = Out_of_Bounds

definition VectorPlayerStream :: "Player list \<Rightarrow> VectorPlayerStream" where
  "VectorPlayerStream players = \<lparr>stream_players = players, currIndex = 0\<rparr>"

definition nextPlayer :: "VectorPlayerStream \<Rightarrow> error + (Player \<times> VectorPlayerStream)" where
  "nextPlayer s =
     (if currIndex s \<ge> length (stream_players s) then Inl Out_of_Bounds
      else Inr (stream_players s ! currIndex s, s\<lparr>currIndex := currIndex s + 1\<rparr>))"

text \<open>
  \<open>remaining\<close> subtracts two \<open>size_t\<close> values; the subtraction of unsigned 64-bit
  numbers wraps around when the index is past the end.
\<close>

definition remaining :: "VectorPlayerStream \<Rightarrow> nat" where
  "remaining s =
     nat ((int (length (stream_players s)) - int (currIndex s)) mod 2 ^ 64)"

text \<open>The class invariant: the index never passes the end of the vector.\<close>

definition stream_inv :: "VectorPlayerStream \<Rightarrow> bool" where
  "stream_inv s = (currIndex s \<le> length (stream_players s) \<and> length (stream_players s) < 2 ^ 64)"


section \<open>The ranking result\<close>

text \<open>
  \<open>RankingResult\<close> has the members \<open>top_\<close> (a vector of players), \<open>cutoffs_\<close> (an
  unordered map from \<open>size_t\<close> to \<open>size_t\<close>) and \<open>elapsed_\<close>.  The elapsed time is a
  reading of the wall clock and is left out.  A default-constructed result has an empty
  vector and an empty map.
\<close>

record RankingResult =
  r_top :: "Player list"
  r_cutoffs :: "nat \<rightharpoonup> nat"

section \<open>The standard library's heap operations\<close>

text \<open>
  \<open>std::swap\<close> on two elements of a vector.
\<close>

definition swap :: "'a list \<Rightarrow> nat \<Rightarrow> nat \<Rightarrow> 'a list" where
  "swap xs i j = xs[i := xs ! j, j := xs ! i]"

text \<open>
  A range is a heap with respect to a comparison \<open>cmp\<close> when no parent compares
  below one of its children: \<open>cmp (parent) (child)\<close> is false for every child.  With
  \<open>std::less\<close> (the default) that is a max-heap, with \<open>std::greater\<close> a min-heap.  The
  predicate looks at the first \<open>n\<close> elements of the list.
\<close>

definition is_heap :: "('a \<Rightarrow> 'a \<Rightarrow> bool) \<Rightarrow> nat \<Rightarrow> 'a list \<Rightarrow> bool" where
  "is_heap cmp n xs = (\<forall>c \<in> {1..<n}. \<not> cmp (xs ! ((c - 1) div 2)) (xs ! c))"

text \<open>
  The C++ standard fixes what \<open>std::make_heap\<close> and \<open>std::pop_heap\<close> achieve (a
  permutation of the range that is a heap; the former first element moved to the end),
  not the arrangement they produce.  They are modelled by the textbook algorithms:
  sifting an element down from index \<open>i\<close> inside the first \<open>n\<close> elements, building a
  heap bottom-up, and popping by exchanging the first and last element of the range and
  sifting the new first element down.
\<close>

definition top_child :: "('a \<Rightarrow> 'a \<Rightarrow> bool) \<Rightarrow> nat \<Rightarrow> 'a list \<Rightarrow> nat \<Rightarrow> nat" where
  "top_child cmp n xs i =
     (let l = 2 * i + 1;
          m = (if l < n \<and> cmp (xs ! i) (xs ! l) then l else i)
      in if l + 1 < n \<and> cmp (xs ! m) (xs ! (l + 1)) then l + 1 else m)"

function sift_down :: "('a \<Rightarrow> 'a \<Rightarrow> bool) \<Rightarrow> nat \<Rightarrow> 'a list \<Rightarrow> nat \<Rightarrow> 'a list" where
  "sift_down cmp n xs i =
     (let j = top_child cmp n xs i
      in if j \<noteq> i then sift_down cmp n (swap xs i j) j else xs)"
  by pat_completeness auto
termination
  by (relation "measure (\<lambda>(cmp, n, xs, i). n - i)")
    (auto simp: top_child_def Let_def split: if_splits)

declare sift_down.simps [simp del]

definition make_heap :: "('a \<Rightarrow> 'a \<Rightarrow> bool) \<Rightarrow> 'a list \<Rightarrow> 'a list" where
  "make_heap cmp xs =
     fold (\<lambda>i ys. sift_down cmp (length xs) ys i) (rev [0..<length xs div 2]) xs"

text \<open>
  \<open>pop_heap cmp n xs\<close> is \<open>std::pop_heap\<close> on the range of the first \<open>n\<close> elements.
  On a range of one element nothing moves; the empty range is outside the contract
  of \<open>std::pop_heap\<close> and is never passed by the code modelled here.
\<close>

definition pop_heap :: "('a \<Rightarrow> 'a \<Rightarrow> bool) \<Rightarrow> nat \<Rightarrow> 'a list \<Rightarrow> 'a list" where
  "pop_heap cmp n xs =
     (if n \<le> 1 then xs else sift_down cmp (n - 1) (swap xs 0 (n - 1)) 0)"

section \<open>Offline::heapRank\<close>

text \<open>
  \<open>std::floor(0.1 * players.size())\<close> is computed in double precision and converted to
  \<open>int\<close>.  The double nearest to one tenth is slightly above one tenth, so for every
  size below \<open>2 ^ 31\<close> the rounded product lies between \<open>n / 10\<close> and the next integer
  and its floor is \<open>n div 10\<close>; the model takes this quotient.  Sizes, counters and
  indices held in an \<open>int\<close> are modelled by unbounded numbers: the model describes
  vectors of fewer than \<open>2 ^ 31\<close> players, on which no \<open>int\<close> overflows.

  The ranking functions change the vector they are given, so the model returns the
  vector after the call together with the result.
\<close>

definition heapRank :: "Player list \<Rightarrow> Player list \<times> RankingResult" where
  "heapRank players =
     (let topTen = length players div 10;
          players1 = make_heap (<) players;
          players2 = fold (\<lambda>i ps. pop_heap (<) (length players - i) ps) [0..<topTen] players1;
          top1 = drop (length players2 - topTen) players2
      in (players2, \<lparr>r_top = sort top1, r_cutoffs = Map.empty\<rparr>))"

section \<open>Offline::quickSelectRank and its helpers\<close>

text \<open>
  \<open>partition\<close>, \<open>quickSort\<close> and \<open>quickSelect\<close> take their bounds as \<open>int\<close>; \<open>high\<close> is
  \<open>-1\<close> when the vector is empty or when the pivot lands on index 0, so the bounds are
  integers here too.  The loop of \<open>partition\<close> is the function \<open>partition_loop\<close>, with
  the pivot \<open>x\<close>, the boundary \<open>lower\<close> and the loop variable \<open>i\<close>.
\<close>

function partition_loop :: "Player list \<Rightarrow> Player \<Rightarrow> int \<Rightarrow> int \<Rightarrow> int \<Rightarrow> Player list \<times> int" where
  "partition_loop players x high lower i =
     (if i < high then
        (if level (players ! nat i) \<le> level x
         then partition_loop (swap players (nat lower) (nat i)) x high (lower + 1) (i + 1)
         else partition_loop players x high lower (i + 1))
      else (players, lower))"
  by pat_completeness auto
termination
  by (relation "measure (\<lambda>(players, x, high, lower, i). nat (high - i))") auto

declare partition_loop.simps [simp del]

definition partition :: "Player list \<Rightarrow> int \<Rightarrow> int \<Rightarrow> Player list \<times> int" where
  "partition players low high =
     (let x = players ! nat high;
          (players1, lower) = partition_loop players x high low low
      in (swap players1 (nat lower) (nat high), lower))"

lemma partition_loop_bounds:
  "lower \<le> i \<Longrightarrow> i \<le> high \<Longrightarrow> partition_loop players x high lower i = (ps, p)
   \<Longrightarrow> lower \<le> p \<and> p \<le> high"
proof (induction players x high lower i rule: partition_loop.induct)
  case (1 players x high lower i)
  note eq = partition_loop.simps [of players x high lower i]
  show ?case
  proof (cases "i < high")
    case True
    show ?thesis
    proof (cases "level (players ! nat i) \<le> level x")
      case True
      with \<open>i < high\<close> "1.prems" "1.IH"(1) eq show ?thesis by force
    next
      case False
      with \<open>i < high\<close> "1.prems" "1.IH"(2) eq show ?thesis by force
    qed
  next
    case False
    with "1.prems" eq show ?thesis by simp
  qed
qed

lemma partition_bounds:
  assumes "low \<le> high" and "partition players low high = (ps, p)"
  shows "low \<le> p \<and> p \<le> high"
proof -
  obtain ps1 where "partition_loop players (players ! nat high) high low low = (ps1, p)"
    using assms(2) by (auto simp: partition_def Let_def split: prod.splits)
  with partition_loop_bounds [of low low high] assms(1) show ?thesis by blast
qed

function quickSort :: "Player list \<Rightarrow> int \<Rightarrow> int \<Rightarrow> Player list" where
  "quickSort players low high =
     (if low < high then
        (case partition players low high of
           (players1, pivot) \<Rightarrow>
             quickSort (quickSort players1 low (pivot - 1)) (pivot + 1) high)
      else players)"
  by pat_completeness auto
termination
proof (relation "measure (\<lambda>(players, low, high). nat (high - low))", goal_cases)
  case 1
  show ?case by simp
next
  case (2 players low high players1 pivot)
  with partition_bounds [of low high players players1 pivot] show ?case by simp
next
  case (3 players low high players1 pivot)
  with partition_bounds [of low high players players1 pivot] show ?case by simp
qed

declare quickSort.simps [simp del]

function quickSelect :: "Player list \<Rightarrow> int \<Rightarrow> int \<Rightarrow> int \<Rightarrow> Player list" where
  "quickSelect players low high k =
     (if low < high then
        (case partition players low high of
           (players1, pivot) \<Rightarrow>
             if pivot = k then players1
             else if pivot < k then quickSelect players1 (pivot + 1) high k
             else quickSelect players1 low (pivot - 1) k)
      else players)"
  by pat_completeness auto
termination
proof (relation "measure (\<lambda>(players, low, high, k). nat (high - low))", goal_cases)
  case 1
  show ?case by simp
next
  case (2 players low high k players1 pivot)
  with partition_bounds [of low high players players1 pivot] show ?case by simp
next
  case (3 players low high k players1 pivot)
  with partition_bounds [of low high players players1 pivot] show ?case by simp
qed

declare quickSelect.simps [simp del]

text \<open>
  \<open>players.size() - 1\<close> is passed as an \<open>int\<close>: \<open>-1\<close> for the empty vector.
\<close>

definition quickSelectRank :: "Player list \<Rightarrow> Player list \<times> RankingResult" where
  "quickSelectRank players =
     (let topTen = int (length players) - int (length players div 10);
          players1 = quickSelect players 0 (int (length players) - 1) topTen;
          players2 = quickSort players1 topTen (int (length players) - 1)
      in (players2, \<lparr>r_top = drop (nat topTen) players2, r_cutoffs = Map.empty\<rparr>))"

section \<open>Online::replaceMin and Online::rankIncoming\<close>

text \<open>
  \<open>replaceMin\<close> works on the range \<open>[first, last)\<close>, here the list of its elements.  It
  writes the target over the first element and runs the loop \<open>replaceMin_loop\<close> from
  index 0.  The indices of the loop start at 0 and only grow: they are natural numbers
  here.  Writing to the first element of an empty range is outside the contract (the
  precondition asks for a heap that holds a minimum).
\<close>

function replaceMin_loop :: "nat \<Rightarrow> Player list \<Rightarrow> nat \<Rightarrow> Player list" where
  "replaceMin_loop sz xs index =
     (let child = index * 2 + 1;
          smallerChild = (if child < sz \<and> xs ! child < xs ! index then child else index);
          smallerChild = (if child + 1 < sz \<and> xs ! (child + 1) < xs ! smallerChild
                          then child + 1 else smallerChild)
      in if smallerChild \<noteq> index
         then replaceMin_loop sz (swap xs index smallerChild) smallerChild
         else xs)"
  by pat_completeness auto
termination
  by (relation "measure (\<lambda>(sz, xs, index). sz - index)")
    (auto simp: Let_def split: if_splits)

declare replaceMin_loop.simps [simp del]

definition replaceMin :: "Player list \<Rightarrow> Player \<Rightarrow> Player list" where
  "replaceMin xs target = replaceMin_loop (length xs) (xs[0 := target]) 0"

text \<open>
  One round of the loop of \<open>rankIncoming\<close>, after the player has been fetched: the
  window \<open>topReportPlayers\<close> and the map of cutoffs are updated for the player number
  \<open>cnt\<close> (the variable \<open>count\<close>, already incremented).  A reporting interval of 0 is outside the contract
  (the code would read the first element of an empty vector and divide by zero).
\<close>

definition window_step :: "nat \<Rightarrow> Player \<Rightarrow> Player list \<Rightarrow> Player list" where
  "window_step reporting_interval currPlayer topReportPlayers =
     (if length topReportPlayers < reporting_interval
      then make_heap (>) (topReportPlayers @ [currPlayer])
      else if currPlayer > topReportPlayers ! 0
      then replaceMin topReportPlayers currPlayer
      else topReportPlayers)"

definition cutoff_step :: "nat \<Rightarrow> nat \<Rightarrow> Player list \<Rightarrow> (nat \<rightharpoonup> nat) \<Rightarrow> (nat \<rightharpoonup> nat)" where
  "cutoff_step reporting_interval cnt topReportPlayers cutoffs =
     (if cnt mod reporting_interval = 0 \<and> topReportPlayers \<noteq> []
      then cutoffs(cnt \<mapsto> level (topReportPlayers ! 0))
      else cutoffs)"

function rankIncoming_loop ::
  "nat \<Rightarrow> VectorPlayerStream \<Rightarrow> nat \<Rightarrow> Player list \<Rightarrow> (nat \<rightharpoonup> nat)
   \<Rightarrow> error + (VectorPlayerStream \<times> nat \<times> Player list \<times> (nat \<rightharpoonup> nat))" where
  "rankIncoming_loop reporting_interval stream cnt topReportPlayers cutoffs =
     (if remaining stream > 0 then
        (case nextPlayer stream of
           Inl e \<Rightarrow> Inl e
         | Inr (currPlayer, stream1) \<Rightarrow>
             (let top1 = window_step reporting_interval currPlayer topReportPlayers
              in rankIncoming_loop reporting_interval stream1 (cnt + 1) top1
                   (cutoff_step reporting_interval (cnt + 1) top1 cutoffs)))
      else Inr (stream, cnt, topReportPlayers, cutoffs))"
  by pat_completeness auto
termination
  by (relation "measure (\<lambda>(k, s, c, w, m). length (stream_players s) - currIndex s)")
    (auto simp: nextPlayer_def split: if_splits)

declare rankIncoming_loop.simps [simp del]

text \<open>
  \<open>rankIncoming\<close> returns the stream as the loop left it and the result, or the error
  thrown by the stream.
\<close>

definition rankIncoming ::
  "VectorPlayerStream \<Rightarrow> nat \<Rightarrow> error + (VectorPlayerStream \<times> RankingResult)" where
  "rankIncoming stream reporting_interval =
     (case rankIncoming_loop reporting_interval stream 0 [] Map.empty of
        Inl e \<Rightarrow> Inl e
      | Inr (stream1, cnt, topReportPlayers, cutoffs) \<Rightarrow>
          Inr (stream1, \<lparr>r_top = sort topReportPlayers, r_cutoffs = cutoffs\<rparr>))"

section \<open>Predicates and functions used in the proofs\<close>

text \<open>
  Two auxiliary predicates for the proofs: \<open>heap_from\<close> asks for the heap condition
  at the parents from index \<open>l\<close> on; \<open>heap_except\<close> exempts the parent \<open>i\<close>, whose
  children must then respect the parent of \<open>i\<close>.
\<close>

definition heap_from :: "('a \<Rightarrow> 'a \<Rightarrow> bool) \<Rightarrow> nat \<Rightarrow> 'a list \<Rightarrow> nat \<Rightarrow> bool" where
  "heap_from cmp n xs l =
     (\<forall>c. 0 < c \<and> c < n \<and> l \<le> (c - 1) div 2 \<longrightarrow> \<not> cmp (xs ! ((c - 1) div 2)) (xs ! c))"

definition heap_except :: "('a \<Rightarrow> 'a \<Rightarrow> bool) \<Rightarrow> nat \<Rightarrow> 'a list \<Rightarrow> nat \<Rightarrow> nat \<Rightarrow> bool" where
  "heap_except cmp n xs l i =
     ((\<forall>c. 0 < c \<and> c < n \<and> l \<le> (c - 1) div 2 \<and> (c - 1) div 2 \<noteq> i
          \<longrightarrow> \<not> cmp (xs ! ((c - 1) div 2)) (xs ! c)) \<and>
      (0 < i \<and> l \<le> (i - 1) div 2 \<longrightarrow>
         (\<forall>c. 0 < c \<and> c < n \<and> (c - 1) div 2 = i \<longrightarrow> \<not> cmp (xs ! ((i - 1) div 2)) (xs ! c))))"

text \<open>
  \<open>rearranged xs ys a b\<close>: the list \<open>ys\<close> is \<open>xs\<close> with the elements at the
  positions from \<open>a\<close> up to, not including, \<open>b\<close> permuted among themselves.
\<close>

definition rearranged :: "'a list \<Rightarrow> 'a list \<Rightarrow> nat \<Rightarrow> nat \<Rightarrow> bool" where
  "rearranged xs ys a b =
     (length ys = length xs \<and> take a ys = take a xs \<and> drop b ys = drop b xs \<and>
      mset ys = mset xs)"

text \<open>
  \<open>level_sorted ps a b\<close>: the players at the positions from \<open>a\<close> up to, not
  including, \<open>b\<close> are in ascending order of level.
\<close>

definition level_sorted :: "Player list \<Rightarrow> nat \<Rightarrow> nat \<Rightarrow> bool" where
  "level_sorted ps a b = (\<forall>i j. a \<le> i \<and> i \<le> j \<and> j < b \<longrightarrow> level (ps ! i) \<le> level (ps ! j))"

text \<open>
  \<open>split_at ps k\<close>: no player before position \<open>k\<close> has a higher level than a player
  at or after position \<open>k\<close>.
\<close>

definition split_at :: "Player list \<Rightarrow> nat \<Rightarrow> bool" where
  "split_at ps k =
     (\<forall>i j. i < k \<and> k \<le> j \<and> j < length ps \<longrightarrow> level (ps ! i) \<le> level (ps ! j))"

text \<open>
  The loop of \<open>rankIncoming\<close> on a stream in a valid state is a fold over the players
  still to come; \<open>consume\<close> is that fold.
\<close>

fun consume ::
  "nat \<Rightarrow> Player list \<Rightarrow> nat \<Rightarrow> Player list \<Rightarrow> (nat \<rightharpoonup> nat)
   \<Rightarrow> nat \<times> Player list \<times> (nat \<rightharpoonup> nat)" where
  "consume k [] c w m = (c, w, m)"
| "consume k (p # ps) c w m =
     consume k ps (c + 1) (window_step k p w)
       (cutoff_step k (c + 1) (window_step k p w) m)"

text \<open>
  The invariant of the window after the players \<open>seen\<close>: it holds \<open>min (length seen) k\<close>
  players, it is a min-heap, and the players seen split into the window and a rest \<open>D\<close>
  of discarded players none of which is above a player of the window.
\<close>

definition window_inv :: "nat \<Rightarrow> Player list \<Rightarrow> Player list \<Rightarrow> bool" where
  "window_inv k seen w =
     (length w = min (length seen) k \<and> is_heap (>) (length w) w \<and>
      (\<exists>D. mset seen = D + mset w \<and> (\<forall>d \<in># D. \<forall>x \<in> set w. d \<le> x)))"

text \<open>
  The invariant of the cutoffs after \<open>c\<close> players: the keys are the positive multiples
  of the interval up to \<open>c\<close>, no recorded value is above the level of the root of the
  window, and the values ascend with the keys.
\<close>

definition cutoffs_inv :: "nat \<Rightarrow> nat \<Rightarrow> Player list \<Rightarrow> (nat \<rightharpoonup> nat) \<Rightarrow> bool" where
  "cutoffs_inv k c w m =
     ((\<forall>c'. (m c' \<noteq> None) = (0 < c' \<and> c' \<le> c \<and> c' mod k = 0)) \<and>
      (\<forall>c' v. m c' = Some v \<longrightarrow> v \<le> level (w ! 0)) \<and>
      (\<forall>c1 c2 v1 v2. m c1 = Some v1 \<and> m c2 = Some v2 \<and> c1 < c2 \<longrightarrow> v1 \<le> v2))"

text \<open>The players a stream has yet to deliver.\<close>

definition pending :: "VectorPlayerStream \<Rightarrow> Player list" where
  "pending s = drop (currIndex s) (stream_players s)"

section \<open>Properties of the stream\<close>

text \<open>
  In a state that satisfies the class invariant the unsigned subtraction in
  \<open>remaining\<close> does not wrap.
\<close>

lemma remaining_inv: "stream_inv s \<Longrightarrow> remaining s = length (stream_players s) - currIndex s"
proof -
  assume a: "stream_inv s"
  let ?n = "length (stream_players s)" and ?i = "currIndex s"
  from a have le: "?i \<le> ?n" and lt: "?n < 2 ^ 64" by (simp_all only: stream_inv_def)
  have e: "int ?n - int ?i = int (?n - ?i)" using le by (simp only: of_nat_diff)
  have "?n - ?i < 2 ^ 64" using lt by (rule less_imp_diff_less)
  then have "int (?n - ?i) < int (2 ^ 64)" by (simp only: of_nat_less_iff)
  then have "int (?n - ?i) < 2 ^ 64" by (simp only: of_nat_power of_nat_numeral)
  then have "int (?n - ?i) mod 2 ^ 64 = int (?n - ?i)" 
    by (intro mod_pos_pos_trivial) (simp_all only: of_nat_0_le_iff)
  then show ?thesis by (simp only: remaining_def e nat_int)
qed

lemma stream_inv_constructor: "length ps < 2 ^ 64 \<Longrightarrow> stream_inv (VectorPlayerStream ps)"
  by (simp only: stream_inv_def VectorPlayerStream_def VectorPlayerStream.simps) simp

lemma nextPlayer_inv: "stream_inv s \<Longrightarrow> nextPlayer s = Inr (p, s') \<Longrightarrow> stream_inv s'"
  by (auto simp: nextPlayer_def stream_inv_def split: if_splits)

text \<open>
  Claim C8: in every state of a stream, \<open>nextPlayer\<close> fails with the exhaustion error
  exactly when \<open>remaining\<close> is 0; when \<open>remaining\<close> is positive it returns a player
  of the vector (the one at the current index, not a sentinel) and \<open>remaining\<close>
  decreases by exactly one.
\<close>

theorem nextPlayer_exhaustion:
  assumes "stream_inv s"
  shows "((\<exists>e. nextPlayer s = Inl e) \<longleftrightarrow> remaining s = 0) \<and>
         (0 < remaining s \<longrightarrow>
            (\<exists>p s'. nextPlayer s = Inr (p, s') \<and> p = stream_players s ! currIndex s \<and>
               currIndex s < length (stream_players s) \<and> stream_inv s' \<and>
               remaining s' = remaining s - 1))"
proof -
  have r: "remaining s = length (stream_players s) - currIndex s"
    by (rule remaining_inv [OF assms])
  have le: "currIndex s \<le> length (stream_players s)"
    using assms by (simp add: stream_inv_def)
  have 1: "(\<exists>e. nextPlayer s = Inl e) \<longleftrightarrow> remaining s = 0"
    using le by (simp add: nextPlayer_def r)
  have 2: "\<exists>p s'. nextPlayer s = Inr (p, s') \<and> p = stream_players s ! currIndex s \<and>
               currIndex s < length (stream_players s) \<and> stream_inv s' \<and>
               remaining s' = remaining s - 1" if pos: "0 < remaining s"
  proof -
    let ?s' = "s\<lparr>currIndex := currIndex s + 1\<rparr>"
    from pos r have lt: "currIndex s < length (stream_players s)" by simp
    then have n: "nextPlayer s = Inr (stream_players s ! currIndex s, ?s')"
      by (simp add: nextPlayer_def)
    have i: "stream_inv ?s'" by (rule nextPlayer_inv [OF assms n])
    have "remaining ?s' = remaining s - 1"
      using remaining_inv [OF i] r by simp
    with n lt i show ?thesis by blast
  qed
  from 1 2 show ?thesis by blast
qed

theorem nextPlayer_exhaustion_witness:
  "stream_inv (VectorPlayerStream [Player ''a'' 1]) \<and>
   remaining (VectorPlayerStream [Player ''a'' 1]) = 1 \<and>
   nextPlayer (VectorPlayerStream [Player ''a'' 1]) =
     Inr (Player ''a'' 1, \<lparr>stream_players = [Player ''a'' 1], currIndex = 1\<rparr>) \<and>
   remaining \<lparr>stream_players = [Player ''a'' 1], currIndex = 1\<rparr> = 0 \<and>
   nextPlayer \<lparr>stream_players = [Player ''a'' 1], currIndex = 1\<rparr> = Inl Out_of_Bounds"
proof -
  have h: "stream_inv (VectorPlayerStream [Player ''a'' 1])"
    by (simp add: stream_inv_def VectorPlayerStream_def)
  have c: "remaining (VectorPlayerStream [Player ''a'' 1]) = 1 \<and>
   nextPlayer (VectorPlayerStream [Player ''a'' 1]) =
     Inr (Player ''a'' 1, \<lparr>stream_players = [Player ''a'' 1], currIndex = 1\<rparr>) \<and>
   remaining \<lparr>stream_players = [Player ''a'' 1], currIndex = 1\<rparr> = 0 \<and>
   nextPlayer \<lparr>stream_players = [Player ''a'' 1], currIndex = 1\<rparr> = Inl Out_of_Bounds"
    by code_simp
  from h c nextPlayer_exhaustion [OF h] show ?thesis by blast
qed

section \<open>Cutoffs of the offline rankers\<close>

text \<open>
  Claim C9: for every input vector the cutoffs of the result of \<open>heapRank\<close> and of
  \<open>quickSelectRank\<close> are empty.
\<close>

theorem offline_cutoffs_empty:
  "r_cutoffs (snd (heapRank players)) = Map.empty \<and>
   r_cutoffs (snd (quickSelectRank players)) = Map.empty"
  by (simp add: heapRank_def quickSelectRank_def Let_def)

section \<open>The final checkpoint of the streaming ranker\<close>

text \<open>
  Claim C1 asks for a cutoff keyed by the final count of players read.  The loop of
  \<open>rankIncoming\<close> records a cutoff only at multiples of the reporting interval and
  nothing is recorded after the loop: on a stream of three players read with an
  interval of two, the stream is exhausted, the key 2 is present and the key 3 is not.
\<close>

theorem rankIncoming_final_checkpoint_missing:
  "case rankIncoming (VectorPlayerStream [Player ''a'' 5, Player ''b'' 1, Player ''c'' 7]) 2 of
     Inl e \<Rightarrow> False
   | Inr (s, r) \<Rightarrow> remaining s = 0 \<and> r_cutoffs r 2 = Some 1 \<and> r_cutoffs r 3 = None"
  by code_simp

section \<open>Properties of the heap operations\<close>

lemma length_swap [simp]: "length (swap xs i j) = length xs"
  by (simp add: swap_def)

lemma nth_swap:
  "i < length xs \<Longrightarrow> j < length xs \<Longrightarrow>
   swap xs i j ! k = (if k = j then xs ! i else if k = i then xs ! j else xs ! k)"
  by (simp add: swap_def nth_list_update)

lemma mset_swap_list: "i < length xs \<Longrightarrow> j < length xs \<Longrightarrow> mset (swap xs i j) = mset xs"
  unfolding swap_def by (rule mset_swap)

lemma drop_swap: "i < n \<Longrightarrow> j < n \<Longrightarrow> drop n (swap xs i j) = drop n xs"
  by (simp add: swap_def)

lemma take_swap: "n \<le> i \<Longrightarrow> n \<le> j \<Longrightarrow> take n (swap xs i j) = take n xs"
  by (simp add: swap_def)

lemma top_child_cases:
  "top_child cmp n xs i = i \<or>
   (top_child cmp n xs i = 2 * i + 1 \<and> 2 * i + 1 < n) \<or>
   (top_child cmp n xs i = 2 * i + 2 \<and> 2 * i + 2 < n)"
  by (simp add: top_child_def Let_def)

lemma top_child_above:
  assumes tr: "\<And>a b c. cmp a b \<Longrightarrow> cmp b c \<Longrightarrow> cmp a c"
  assumes "top_child cmp n xs i \<noteq> i"
  shows "cmp (xs ! i) (xs ! top_child cmp n xs i)"
  using assms(2) by (auto simp: top_child_def Let_def split: if_splits intro: tr)

lemma top_child_best:
  assumes tr: "\<And>a b c. cmp a b \<Longrightarrow> cmp b c \<Longrightarrow> cmp a c"
      and asym: "\<And>a b. cmp a b \<Longrightarrow> \<not> cmp b a"
      and c: "c = 2 * i + 1 \<or> c = 2 * i + 2" "c < n"
  shows "\<not> cmp (xs ! top_child cmp n xs i) (xs ! c)"
proof -
  have irr: "\<And>a. \<not> cmp a a" using asym by blast
  have 1: "cmp (xs ! (2 * i + 1)) (xs ! (2 * i + 2)) \<Longrightarrow> \<not> cmp (xs ! (2 * i + 2)) (xs ! (2 * i + 1))"
    by (rule asym)
  have 2: "cmp (xs ! i) (xs ! (2 * i + 2)) \<Longrightarrow> cmp (xs ! (2 * i + 2)) (xs ! (2 * i + 1))
           \<Longrightarrow> cmp (xs ! i) (xs ! (2 * i + 1))"
    by (rule tr)
  from c irr 1 2 show ?thesis
    by (auto simp: top_child_def Let_def split: if_splits)
qed

lemma length_sift_down [simp]: "length (sift_down cmp n xs i) = length xs"
proof (induction cmp n xs i rule: sift_down.induct)
  case (1 cmp n xs i)
  show ?case
  proof (cases "top_child cmp n xs i = i")
    case True
    then show ?thesis by (subst sift_down.simps) simp
  next
    case False
    with "1.IH" [OF refl False] show ?thesis
      by (subst sift_down.simps) (simp add: Let_def)
  qed
qed


lemma top_child_bound: "top_child cmp n xs i \<noteq> i \<Longrightarrow> i < top_child cmp n xs i \<and> top_child cmp n xs i < n"
  using top_child_cases [of cmp n xs i] by auto

lemma sift_down_unfold:
  "sift_down cmp n xs i =
     (if top_child cmp n xs i \<noteq> i
      then sift_down cmp n (swap xs i (top_child cmp n xs i)) (top_child cmp n xs i) else xs)"
  by (subst sift_down.simps) (simp add: Let_def)

lemma mset_sift_down: "n \<le> length xs \<Longrightarrow> mset (sift_down cmp n xs i) = mset xs"
proof (induction cmp n xs i rule: sift_down.induct)
  case (1 cmp n xs i)
  show ?case
  proof (cases "top_child cmp n xs i = i")
    case True
    then show ?thesis by (subst sift_down_unfold) simp
  next
    case False
    from top_child_bound [OF False] "1.prems"
    have b: "i < length xs" "top_child cmp n xs i < length xs" by simp_all
    from "1.IH" [OF refl False] "1.prems" False show ?thesis
      by (subst sift_down_unfold) (simp add: mset_swap_list [OF b])
  qed
qed

lemma drop_sift_down: "drop n (sift_down cmp n xs i) = drop n xs"
proof (induction cmp n xs i rule: sift_down.induct)
  case (1 cmp n xs i)
  show ?case
  proof (cases "top_child cmp n xs i = i")
    case True
    then show ?thesis by (subst sift_down_unfold) simp
  next
    case False
    from top_child_bound [OF False]
    have b: "i < n" "top_child cmp n xs i < n" by simp_all
    from "1.IH" [OF refl False] False show ?thesis
      by (subst sift_down_unfold) (simp add: drop_swap [OF b])
  qed
qed

lemma is_heap_heap_from: "is_heap cmp n xs = heap_from cmp n xs 0"
  by (auto simp: is_heap_def heap_from_def)

lemma sift_down_heap:
  assumes tr: "\<And>a b c. cmp a b \<Longrightarrow> cmp b c \<Longrightarrow> cmp a c"
      and asym: "\<And>a b. cmp a b \<Longrightarrow> \<not> cmp b a"
      and "n \<le> length xs" and "l \<le> i" and "heap_except cmp n xs l i"
  shows "heap_from cmp n (sift_down cmp n xs i) l"
  using assms
proof (induction cmp n xs i rule: sift_down.induct)
  case (1 cmp n xs i)
  note tr = "1.prems"(1) and asym = "1.prems"(2)
  note len = "1.prems"(3) and li = "1.prems"(4) and he = "1.prems"(5)
  let ?j = "top_child cmp n xs i"
  from he have he1: "\<And>c. 0 < c \<Longrightarrow> c < n \<Longrightarrow> l \<le> (c - 1) div 2 \<Longrightarrow> (c - 1) div 2 \<noteq> i
       \<Longrightarrow> \<not> cmp (xs ! ((c - 1) div 2)) (xs ! c)"
    by (simp add: heap_except_def)
  from he have he2: "\<And>c. 0 < i \<Longrightarrow> l \<le> (i - 1) div 2 \<Longrightarrow> 0 < c \<Longrightarrow> c < n \<Longrightarrow> (c - 1) div 2 = i
       \<Longrightarrow> \<not> cmp (xs ! ((i - 1) div 2)) (xs ! c)"
    by (simp add: heap_except_def)
  show ?case
  proof (cases "?j = i")
    case True
    have "heap_from cmp n xs l"
      unfolding heap_from_def
    proof (intro allI impI, elim conjE)
      fix c assume c: "0 < c" "c < n" "l \<le> (c - 1) div 2"
      show "\<not> cmp (xs ! ((c - 1) div 2)) (xs ! c)"
      proof (cases "(c - 1) div 2 = i")
        case False
        with c show ?thesis by (rule he1)
      next
        case pi: True
        with c(1) have "c = 2 * i + 1 \<or> c = 2 * i + 2" by presburger
        from top_child_best [of cmp c i n xs, OF tr asym this c(2)] True pi
        show ?thesis by simp
      qed
    qed
    with True show ?thesis by (subst sift_down_unfold) simp
  next
    case False
    from top_child_bound [OF False] len
    have b: "i < length xs" "?j < length xs" "i < ?j" "?j < n" by simp_all
    from top_child_cases [of cmp n xs i] False
    have jc: "?j = 2 * i + 1 \<or> ?j = 2 * i + 2" by blast
    then have pj: "(?j - 1) div 2 = i" by presburger
    have above: "cmp (xs ! i) (xs ! ?j)"
      by (rule top_child_above [of cmp, OF tr False])
    let ?ys = "swap xs i ?j"
    have nth: "\<And>k. ?ys ! k = (if k = ?j then xs ! i else if k = i then xs ! ?j else xs ! k)"
      by (rule nth_swap [OF b(1,2)])
    have "heap_except cmp n ?ys l ?j"
      unfolding heap_except_def
    proof (intro conjI allI impI; (elim conjE)?)
      fix c assume c: "0 < c" "c < n" "l \<le> (c - 1) div 2" "(c - 1) div 2 \<noteq> ?j"
      let ?p = "(c - 1) div 2"
      show "\<not> cmp (?ys ! ?p) (?ys ! c)"
      proof (cases "?p = i")
        case pi: True
        with c(1) have cc: "c = 2 * i + 1 \<or> c = 2 * i + 2" by presburger
        show ?thesis
        proof (cases "c = ?j")
          case True
          with pi nth b(3) asym [OF above] show ?thesis by simp
        next
          case False
          with cc have "c \<noteq> i" by auto
          with False pi nth b(3) top_child_best [of cmp c i n xs, OF tr asym cc c(2)]
          show ?thesis by simp
        qed
      next
        case npi: False
        then have cj: "c \<noteq> ?j" using pj by auto
        show ?thesis
        proof (cases "c = i")
          case True
          with c(1) have i0: "0 < i" by simp
          from he2 [OF i0 _ _ b(4) pj] c(3) True b(3)
          have "\<not> cmp (xs ! ((i - 1) div 2)) (xs ! ?j)" by simp
          with True nth c(4) npi b(3) show ?thesis by simp
        next
          case False
          with cj nth c(4) npi he1 [OF c(1,2,3) npi] show ?thesis by simp
        qed
      qed
    next
      fix c assume c: "0 < c" "c < n" "(c - 1) div 2 = ?j"
      then have "?j < c" by presburger
      with b(3) have ne: "c \<noteq> ?j" "c \<noteq> i" by simp_all
      from li b(3) have "l \<le> (c - 1) div 2" "(c - 1) div 2 \<noteq> i" using c(3) by simp_all
      from he1 [OF c(1,2) this] c(3) have "\<not> cmp (xs ! ?j) (xs ! c)" by simp
      with ne nth pj b(3) show "\<not> cmp (?ys ! ((?j - 1) div 2)) (?ys ! c)" by simp
    qed
    with "1.IH" [OF refl False tr asym] len li b(3)
    have "heap_from cmp n (sift_down cmp n ?ys ?j) l" by simp
    with False show ?thesis by (subst sift_down_unfold) simp
  qed
qed

lemma heap_from_sift_down_step:
  assumes tr: "\<And>a b c. cmp a b \<Longrightarrow> cmp b c \<Longrightarrow> cmp a c"
      and asym: "\<And>a b. cmp a b \<Longrightarrow> \<not> cmp b a"
      and len: "n \<le> length xs" and h: "heap_from cmp n xs (Suc l)"
  shows "heap_from cmp n (sift_down cmp n xs l) l"
proof (rule sift_down_heap [of cmp, OF tr asym len order_refl])
  have "\<And>c::nat. 0 < c \<Longrightarrow> (c - 1) div 2 < c" by presburger
  then have g: "\<not> (0 < l \<and> l \<le> (l - 1) div 2)" by (metis not_less)
  from h have "\<And>c. 0 < c \<Longrightarrow> c < n \<Longrightarrow> l \<le> (c - 1) div 2 \<Longrightarrow> (c - 1) div 2 \<noteq> l
       \<Longrightarrow> \<not> cmp (xs ! ((c - 1) div 2)) (xs ! c)"
    by (simp add: heap_from_def)
  with g show "heap_except cmp n xs l l"
    unfolding heap_except_def by blast
qed

lemma fold_sift_down_props:
  assumes tr: "\<And>a b c. cmp a b \<Longrightarrow> cmp b c \<Longrightarrow> cmp a c"
      and asym: "\<And>a b. cmp a b \<Longrightarrow> \<not> cmp b a"
  shows "n \<le> length xs \<Longrightarrow> heap_from cmp n xs m \<Longrightarrow>
         heap_from cmp n (fold (\<lambda>i ys. sift_down cmp n ys i) (rev [0..<m]) xs) 0 \<and>
         mset (fold (\<lambda>i ys. sift_down cmp n ys i) (rev [0..<m]) xs) = mset xs"
proof (induction m arbitrary: xs)
  case 0
  then show ?case by simp
next
  case (Suc m)
  from heap_from_sift_down_step [of cmp, OF tr asym Suc.prems]
  have h: "heap_from cmp n (sift_down cmp n xs m) m" .
  from Suc.prems(1) have l: "n \<le> length (sift_down cmp n xs m)" by simp
  from Suc.IH [OF l h] mset_sift_down [OF Suc.prems(1)] show ?case by simp
qed

lemma make_heap_props:
  assumes tr: "\<And>a b c. cmp a b \<Longrightarrow> cmp b c \<Longrightarrow> cmp a c"
      and asym: "\<And>a b. cmp a b \<Longrightarrow> \<not> cmp b a"
  shows "is_heap cmp (length xs) (make_heap cmp xs) \<and> mset (make_heap cmp xs) = mset xs"
proof -
  have "\<And>c::nat. 0 < c \<Longrightarrow> c < length xs \<Longrightarrow> (c - 1) div 2 < length xs div 2"
    by presburger
  then have "heap_from cmp (length xs) xs (length xs div 2)"
    unfolding heap_from_def by (metis not_less)
  from fold_sift_down_props [of cmp, OF tr asym order_refl this]
  show ?thesis by (simp add: make_heap_def is_heap_heap_from)
qed

lemma length_make_heap [simp]: "length (make_heap cmp xs) = length xs"
proof -
  have "\<And>ys. length (fold (\<lambda>i ys. sift_down cmp n ys i) is ys) = length ys" for n "is"
    by (induction "is") simp_all
  then show ?thesis by (simp add: make_heap_def)
qed

text \<open>The root of a heap is not below any other element.\<close>

lemma heap_root:
  assumes ntr: "\<And>a b c. \<not> cmp a b \<Longrightarrow> \<not> cmp b c \<Longrightarrow> \<not> cmp a c"
      and irr: "\<And>a. \<not> cmp a a"
      and h: "is_heap cmp n xs"
  shows "k < n \<Longrightarrow> \<not> cmp (xs ! 0) (xs ! k)"
proof (induction k rule: less_induct)
  case (less k)
  show ?case
  proof (cases "k = 0")
    case True
    then show ?thesis by (simp add: irr)
  next
    case False
    then have p: "(k - 1) div 2 < k" by presburger
    with less.prems have "(k - 1) div 2 < n" by simp
    from less.IH [OF p this] have 1: "\<not> cmp (xs ! 0) (xs ! ((k - 1) div 2))" .
    from h False less.prems have 2: "\<not> cmp (xs ! ((k - 1) div 2)) (xs ! k)"
      by (simp add: is_heap_def)
    from 1 2 show ?thesis by (rule ntr)
  qed
qed

lemma max_heap_root:
  fixes xs :: "'a::linorder list"
  shows "is_heap (<) n xs \<Longrightarrow> k < n \<Longrightarrow> xs ! k \<le> xs ! 0"
  using heap_root [of "(<)" n xs k] by (simp add: not_less)

lemma min_heap_root:
  fixes xs :: "'a::linorder list"
  shows "is_heap (>) n xs \<Longrightarrow> k < n \<Longrightarrow> xs ! 0 \<le> xs ! k"
  using heap_root [of "(>)" n xs k] by (simp add: not_less)

section \<open>The heap-repair primitive\<close>

lemma replaceMin_loop_sift_down: "replaceMin_loop sz xs i = sift_down (>) sz xs i"
proof (induction sz xs i rule: replaceMin_loop.induct)
  case (1 sz xs index)
  define c where "c = index * 2 + 1"
  define s1 where "s1 = (if c < sz \<and> xs ! c < xs ! index then c else index)"
  define s2 where "s2 = (if c + 1 < sz \<and> xs ! (c + 1) < xs ! s1 then c + 1 else s1)"
  have step: "replaceMin_loop sz xs index =
      (if s2 \<noteq> index then replaceMin_loop sz (swap xs index s2) s2 else xs)"
    unfolding c_def s1_def s2_def
    by (subst replaceMin_loop.simps) (simp only: Let_def)
  have tc: "top_child (>) sz xs index = s2"
    unfolding c_def s1_def s2_def by (simp add: top_child_def Let_def mult.commute)
  have IH: "s2 \<noteq> index \<Longrightarrow>
      replaceMin_loop sz (swap xs index s2) s2 = sift_down (>) sz (swap xs index s2) s2"
    using "1.IH" [OF c_def s1_def s2_def] .
  show ?case
  proof (cases "s2 = index")
    case True
    with step tc show ?thesis by (subst sift_down_unfold) simp
  next
    case False
    with step tc IH show ?thesis by (subst sift_down_unfold) simp
  qed
qed

lemma heap_except_root:
  assumes "is_heap cmp n xs"
  shows "heap_except cmp n (xs[0 := t]) 0 0"
proof -
  have "\<not> cmp (xs[0 := t] ! ((c - 1) div 2)) (xs[0 := t] ! c)"
    if c: "0 < c" "c < n" "(c - 1) div 2 \<noteq> 0" for c
  proof -
    from assms c have "\<not> cmp (xs ! ((c - 1) div 2)) (xs ! c)" by (simp add: is_heap_def)
    with c show ?thesis by simp
  qed
  then show ?thesis by (simp add: heap_except_def)
qed

lemma replaceMin_props:
  assumes "xs \<noteq> []" and "is_heap (>) (length xs) xs"
  shows "length (replaceMin xs target) = length xs \<and>
         is_heap (>) (length xs) (replaceMin xs target) \<and>
         (\<forall>x \<in> set xs. xs ! 0 \<le> x) \<and>
         mset (replaceMin xs target) = mset xs - {#xs ! 0#} + {#target#}"
proof -
  let ?ys = "xs[0 := target]"
  have r: "replaceMin xs target = sift_down (>) (length ?ys) ?ys 0"
    by (simp add: replaceMin_def replaceMin_loop_sift_down)
  have 1: "length (replaceMin xs target) = length xs" by (simp add: r)
  have "heap_from (>) (length ?ys) (sift_down (>) (length ?ys) ?ys 0) 0"
  proof (rule sift_down_heap)
    show "heap_except (>) (length ?ys) ?ys 0 0"
      using heap_except_root [OF assms(2)] by simp
  qed auto
  then have 2: "is_heap (>) (length xs) (replaceMin xs target)"
    by (simp add: r is_heap_heap_from)
  have 3: "\<forall>x \<in> set xs. xs ! 0 \<le> x"
    using min_heap_root [OF assms(2)] by (auto simp: in_set_conv_nth)
  have "mset (replaceMin xs target) = mset ?ys"
    unfolding r by (rule mset_sift_down) simp
  also have "\<dots> = mset xs - {#xs ! 0#} + {#target#}"
    using assms(1) by (simp add: mset_update)
  finally have 4: "mset (replaceMin xs target) = mset xs - {#xs ! 0#} + {#target#}" .
  from 1 2 3 4 show ?thesis by blast
qed

text \<open>
  Claim C5: for every non-empty range that is a min-heap and every replacement player,
  the range after \<open>replaceMin\<close> has the same size, is a min-heap, and holds the
  players it held before with the former minimum (the root, which is below or equal to
  every element) taken out once and the replacement put in.
\<close>

theorem replaceMin_heap:
  assumes "xs \<noteq> []" and "is_heap (>) (length xs) xs"
  shows "length (replaceMin xs target) = length xs \<and>
         is_heap (>) (length xs) (replaceMin xs target) \<and>
         (\<forall>x \<in> set xs. xs ! 0 \<le> x) \<and>
         mset (replaceMin xs target) = mset xs - {#xs ! 0#} + {#target#}"
  using assms by (rule replaceMin_props)

theorem replaceMin_heap_witness:
  "[Player ''a'' 1, Player ''b'' 3, Player ''c'' 2] \<noteq> [] \<and>
   is_heap (>) (length [Player ''a'' 1, Player ''b'' 3, Player ''c'' 2])
     [Player ''a'' 1, Player ''b'' 3, Player ''c'' 2] \<and>
   replaceMin [Player ''a'' 1, Player ''b'' 3, Player ''c'' 2] (Player ''d'' 5) =
     [Player ''c'' 2, Player ''b'' 3, Player ''d'' 5] \<and>
   is_heap (>) (length [Player ''a'' 1, Player ''b'' 3, Player ''c'' 2])
     (replaceMin [Player ''a'' 1, Player ''b'' 3, Player ''c'' 2] (Player ''d'' 5)) \<and>
   mset (replaceMin [Player ''a'' 1, Player ''b'' 3, Player ''c'' 2] (Player ''d'' 5)) =
     mset [Player ''a'' 1, Player ''b'' 3, Player ''c'' 2]
       - {#[Player ''a'' 1, Player ''b'' 3, Player ''c'' 2] ! 0#} + {#Player ''d'' 5#}"
proof -
  let ?xs = "[Player ''a'' 1, Player ''b'' 3, Player ''c'' 2]"
  have h1: "?xs \<noteq> []" by simp
  have h2: "is_heap (>) (length ?xs) ?xs" by code_simp
  have e: "replaceMin ?xs (Player ''d'' 5) = [Player ''c'' 2, Player ''b'' 3, Player ''d'' 5]"
    by code_simp
  from h1 h2 e replaceMin_heap [OF h1 h2, of "Player ''d'' 5"] show ?thesis by blast
qed

section \<open>The heap-select ranker\<close>

lemma pop_heap_props:
  assumes tr: "\<And>a b c. cmp a b \<Longrightarrow> cmp b c \<Longrightarrow> cmp a c"
      and asym: "\<And>a b. cmp a b \<Longrightarrow> \<not> cmp b a"
      and m: "0 < m" "m \<le> length ys" and h: "is_heap cmp m ys"
  shows "length (pop_heap cmp m ys) = length ys"
    and "mset (pop_heap cmp m ys) = mset ys"
    and "drop (m - 1) (pop_heap cmp m ys) = ys ! 0 # drop m ys"
    and "is_heap cmp (m - 1) (pop_heap cmp m ys)"
proof -
  show "length (pop_heap cmp m ys) = length ys" by (simp add: pop_heap_def)
  show "mset (pop_heap cmp m ys) = mset ys"
  proof (cases "m \<le> 1")
    case True
    then show ?thesis by (simp add: pop_heap_def)
  next
    case False
    with m have "0 < length ys" "m - 1 < length ys" by linarith+
    then have "mset (swap ys 0 (m - 1)) = mset ys"
      by (rule mset_swap_list)
    with False m show ?thesis by (simp add: pop_heap_def mset_sift_down)
  qed
  show "drop (m - 1) (pop_heap cmp m ys) = ys ! 0 # drop m ys"
  proof (cases "m \<le> 1")
    case True
    with m have "m = 1" by simp
    with m show ?thesis by (cases ys) (simp_all add: pop_heap_def)
  next
    case False
    then have "drop (m - 1) (pop_heap cmp m ys) = drop (m - 1) (swap ys 0 (m - 1))"
      by (simp add: pop_heap_def drop_sift_down)
    also have "\<dots> = swap ys 0 (m - 1) ! (m - 1) # drop (Suc (m - 1)) (swap ys 0 (m - 1))"
      by (rule Cons_nth_drop_Suc [symmetric]) (use m in simp)
    also have "\<dots> = ys ! 0 # drop m ys"
    proof -
      from m False have b: "0 < length ys" "m - 1 < length ys" "0 < m" "m - 1 < m" by linarith+
      have "swap ys 0 (m - 1) ! (m - 1) = ys ! 0" using nth_swap [OF b(1,2), of "m - 1"] by simp
      moreover have "drop m (swap ys 0 (m - 1)) = drop m ys" by (rule drop_swap [OF b(3,4)])
      ultimately show ?thesis using b(3) by simp
    qed
    finally show ?thesis .
  qed
  show "is_heap cmp (m - 1) (pop_heap cmp m ys)"
  proof (cases "m \<le> 1")
    case True
    then show ?thesis by (simp add: is_heap_def)
  next
    case False
    let ?zs = "swap ys 0 (m - 1)"
    have "\<not> cmp (?zs ! ((c - 1) div 2)) (?zs ! c)"
      if c: "0 < c" "c < m - 1" "(c - 1) div 2 \<noteq> 0" for c
    proof -
      from c have p: "(c - 1) div 2 < m - 1" by presburger
      from h c have "\<not> cmp (ys ! ((c - 1) div 2)) (ys ! c)" by (simp add: is_heap_def)
      moreover from m False have "0 < length ys" "m - 1 < length ys" by linarith+
      note nth_swap [OF this]
      ultimately show ?thesis using c p by simp
    qed
    then have "heap_except cmp (m - 1) ?zs 0 0" by (simp add: heap_except_def)
    from sift_down_heap [of cmp, OF tr asym _ order_refl this] m False
    show ?thesis by (simp add: pop_heap_def is_heap_heap_from)
  qed
qed

lemma sort_append_le:
  fixes xs ys :: "'a::linorder list"
  assumes "\<forall>a \<in> set xs. \<forall>b \<in> set ys. a \<le> b"
  shows "sort (xs @ ys) = sort xs @ sort ys"
proof (rule properties_for_sort)
  show "mset (sort xs @ sort ys) = mset (xs @ ys)" by simp
  show "sorted (sort xs @ sort ys)" using assms by (simp add: sorted_append)
qed

lemma sort_drop_le:
  fixes ys :: "'a::linorder list"
  assumes "\<forall>a \<in> set (take k ys). \<forall>b \<in> set (drop k ys). a \<le> b" and "k \<le> length ys"
  shows "sort (drop k ys) = drop k (sort ys)"
proof -
  have "sort ys = sort (take k ys @ drop k ys)" by simp
  also have "\<dots> = sort (take k ys) @ sort (drop k ys)" by (rule sort_append_le [OF assms(1)])
  finally have "drop k (sort ys) = drop k (sort (take k ys) @ sort (drop k ys))" by simp
  also have "\<dots> = sort (drop k ys)" using assms(2) by simp
  finally show ?thesis by simp
qed

lemma mset_eq_sort_eq:
  fixes xs ys :: "'a::linorder list"
  shows "mset xs = mset ys \<Longrightarrow> sort xs = sort ys"
  by (rule properties_for_sort) simp_all

lemma pops_invariant:
  fixes xs :: "'a::linorder list"
  assumes "is_heap (<) (length xs) xs"
  shows "t \<le> length xs \<Longrightarrow>
    length (fold (\<lambda>i ps. pop_heap (<) (length xs - i) ps) [0..<t] xs) = length xs \<and>
    mset (fold (\<lambda>i ps. pop_heap (<) (length xs - i) ps) [0..<t] xs) = mset xs \<and>
    is_heap (<) (length xs - t) (fold (\<lambda>i ps. pop_heap (<) (length xs - i) ps) [0..<t] xs) \<and>
    (\<forall>a \<in> set (take (length xs - t) (fold (\<lambda>i ps. pop_heap (<) (length xs - i) ps) [0..<t] xs)).
     \<forall>b \<in> set (drop (length xs - t) (fold (\<lambda>i ps. pop_heap (<) (length xs - i) ps) [0..<t] xs)).
       a \<le> b)"
proof (induction t)
  case 0
  with assms show ?case by simp
next
  case (Suc t)
  let ?n = "length xs"
  let ?ys = "fold (\<lambda>i ps. pop_heap (<) (?n - i) ps) [0..<t] xs"
  let ?m = "?n - t"
  let ?ps = "pop_heap (<) ?m ?ys"
  from Suc have len: "length ?ys = ?n" and ms: "mset ?ys = mset xs"
    and hp: "is_heap (<) ?m ?ys"
    and le: "\<forall>a \<in> set (take ?m ?ys). \<forall>b \<in> set (drop ?m ?ys). a \<le> b"
    by simp_all
  from Suc.prems len have m: "0 < ?m" "?m \<le> length ?ys" by simp_all
  have f: "fold (\<lambda>i ps. pop_heap (<) (?n - i) ps) [0..<Suc t] xs = ?ps" by simp
  note pp = pop_heap_props [of "(<)", OF _ _ m hp]
  have 1: "length ?ps = ?n" using pp(1) len by simp
  have 2: "mset ?ps = mset xs" using pp(2) ms by simp
  have 3: "is_heap (<) (?n - Suc t) ?ps" using pp(4) by simp
  have d: "drop (?n - Suc t) ?ps = ?ys ! 0 # drop ?m ?ys" using pp(3) by simp
  have "mset (take (?n - Suc t) ?ps) + mset (drop (?n - Suc t) ?ps) = mset ?ys"
    using pp(2) by (simp flip: mset_append)
  then have "(mset (take (?n - Suc t) ?ps) + {#?ys ! 0#}) + mset (drop ?m ?ys) = mset ?ys"
    by (simp add: d)
  moreover have "mset (take ?m ?ys) + mset (drop ?m ?ys) = mset ?ys"
    by (simp flip: mset_append)
  ultimately have tk: "mset (take ?m ?ys) = mset (take (?n - Suc t) ?ps) + {#?ys ! 0#}"
    by (metis add_right_cancel)
  have 4: "a \<le> b" if a: "a \<in> set (take (?n - Suc t) ?ps)" and b: "b \<in> set (drop (?n - Suc t) ?ps)" for a b
  proof -
    from a have "a \<in># mset (take (?n - Suc t) ?ps) + {#?ys ! 0#}" by simp
    with tk have a': "a \<in> set (take ?m ?ys)"
      by (metis set_mset_mset)
    from b d have "b = ?ys ! 0 \<or> b \<in> set (drop ?m ?ys)" by simp
    then show ?thesis
    proof
      assume b0: "b = ?ys ! 0"
      from a' obtain k where "k < ?m" "a = ?ys ! k"
        using m by (auto simp: in_set_conv_nth)
      with max_heap_root [OF hp, of k] b0 show ?thesis by simp
    next
      assume "b \<in> set (drop ?m ?ys)"
      with a' le show ?thesis by blast
    qed
  qed
  from 1 2 3 4 show ?case unfolding f by blast
qed

lemma heapRank_top:
  "r_top (snd (heapRank players)) =
     drop (length players - length players div 10) (sort players)"
proof -
  let ?n = "length players" and ?k = "length players div 10"
  let ?h = "make_heap (<) players"
  let ?ys = "fold (\<lambda>i ps. pop_heap (<) (?n - i) ps) [0..<?k] ?h"
  have h: "is_heap (<) (length ?h) ?h" and mh: "mset ?h = mset players"
    using make_heap_props [of "(<)" players] by auto
  have k: "?k \<le> length ?h" by simp
  from pops_invariant [OF h k]
  have len: "length ?ys = ?n" and ms: "mset ?ys = mset players"
    and le: "\<forall>a \<in> set (take (?n - ?k) ?ys). \<forall>b \<in> set (drop (?n - ?k) ?ys). a \<le> b"
    using mh by simp_all
  have "r_top (snd (heapRank players)) = sort (drop (?n - ?k) ?ys)"
    by (simp add: heapRank_def Let_def len)
  also have "\<dots> = drop (?n - ?k) (sort ?ys)"
    by (rule sort_drop_le [OF le]) (simp add: len)
  also have "sort ?ys = sort players" by (rule mset_eq_sort_eq [OF ms])
  finally show ?thesis .
qed

lemma heapRank_mset: "mset (fst (heapRank players)) = mset players"
proof -
  let ?h = "make_heap (<) players"
  have h: "is_heap (<) (length ?h) ?h" and mh: "mset ?h = mset players"
    using make_heap_props [of "(<)" players] by auto
  have k: "length players div 10 \<le> length ?h" by simp
  from pops_invariant [OF h k] mh show ?thesis
    by (simp add: heapRank_def Let_def)
qed

section \<open>The quickselect ranker\<close>

lemma rearranged_refl: "rearranged xs xs a b"
  by (simp add: rearranged_def)

lemma rearranged_trans:
  "rearranged xs ys a b \<Longrightarrow> rearranged ys zs a b \<Longrightarrow> rearranged xs zs a b"
  by (simp add: rearranged_def)

lemma rearranged_mono:
  assumes "rearranged xs ys a b" and "a' \<le> a" and "b \<le> b'"
  shows "rearranged xs ys a' b'"
proof -
  from assms(1) have t: "take a ys = take a xs" and d: "drop b ys = drop b xs"
    by (simp_all add: rearranged_def)
  have "take a' (take a ys) = take a' (take a xs)" using t by simp
  then have 1: "take a' ys = take a' xs" using assms(2) by (simp add: min_absorb1)
  have "drop (b' - b) (drop b ys) = drop (b' - b) (drop b xs)" using d by simp
  then have 2: "drop b' ys = drop b' xs" using assms(3) by simp
  from assms(1) 1 2 show ?thesis by (simp add: rearranged_def)
qed

lemma rearranged_swap:
  assumes "a \<le> i" "i < b" "a \<le> j" "j < b" "b \<le> length xs"
  shows "rearranged xs (swap xs i j) a b"
proof -
  from assms have "i < length xs" "j < length xs" by linarith+
  then have "mset (swap xs i j) = mset xs" by (rule mset_swap_list)
  with assms show ?thesis
    by (simp add: rearranged_def take_swap drop_swap)
qed

lemma rearranged_nth_out:
  assumes "rearranged xs ys a b" and "k < a \<or> b \<le> k" and "k < length xs"
  shows "ys ! k = xs ! k"
proof -
  from assms(1) have l: "length ys = length xs" and t: "take a ys = take a xs"
    and d: "drop b ys = drop b xs"
    by (simp_all add: rearranged_def)
  from assms(2) show ?thesis
  proof
    assume "k < a"
    then have "ys ! k = take a ys ! k" "xs ! k = take a xs ! k" by simp_all
    with t show ?thesis by simp
  next
    assume bk: "b \<le> k"
    with assms(3) l have "drop b ys ! (k - b) = ys ! k" "drop b xs ! (k - b) = xs ! k"
      by simp_all
    with d show ?thesis by simp
  qed
qed

lemma slice_split:
  "a \<le> b \<Longrightarrow> xs = take a xs @ take (b - a) (drop a xs) @ drop b xs"
proof -
  assume ab: "a \<le> b"
  have 1: "drop a xs = take (b - a) (drop a xs) @ drop (b - a) (drop a xs)"
    by (rule append_take_drop_id [symmetric])
  have 2: "drop (b - a) (drop a xs) = drop b xs" using ab by simp
  have "xs = take a xs @ drop a xs" by simp
  also have "\<dots> = take a xs @ take (b - a) (drop a xs) @ drop (b - a) (drop a xs)"
    using 1 by (rule arg_cong)
  finally show ?thesis by (simp only: 2)
qed

lemma rearranged_slice:
  assumes "rearranged xs ys a b" and "a \<le> b"
  shows "mset (take (b - a) (drop a ys)) = mset (take (b - a) (drop a xs))"
proof -
  from assms(1) have t: "take a ys = take a xs" and d: "drop b ys = drop b xs"
    and m: "mset ys = mset xs"
    by (simp_all add: rearranged_def)
  have "mset xs = mset (take a xs) + mset (take (b - a) (drop a xs)) + mset (drop b xs)"
    using slice_split [OF assms(2), of xs] by (metis mset_append add.assoc)
  moreover have "mset ys = mset (take a ys) + mset (take (b - a) (drop a ys)) + mset (drop b ys)"
    using slice_split [OF assms(2), of ys] by (metis mset_append add.assoc)
  ultimately show ?thesis using t d m by simp
qed

text \<open>Every element of the rearranged range comes from the range.\<close>

lemma rearranged_nth_in:
  assumes r: "rearranged xs ys a b" and k: "a \<le> k" "k < b" and b: "b \<le> length xs"
  shows "\<exists>k'. a \<le> k' \<and> k' < b \<and> ys ! k = xs ! k'"
proof -
  from r have l: "length ys = length xs" by (simp add: rearranged_def)
  from k have ab: "a \<le> b" by simp
  from k b l have "ys ! k = take (b - a) (drop a ys) ! (k - a)" by simp
  moreover from k b l have "k - a < length (take (b - a) (drop a ys))" by simp
  ultimately have "ys ! k \<in> set (take (b - a) (drop a ys))" by (metis nth_mem)
  then have "ys ! k \<in># mset (take (b - a) (drop a ys))" by simp
  then have "ys ! k \<in># mset (take (b - a) (drop a xs))"
    by (simp only: rearranged_slice [OF r ab])
  then have "ys ! k \<in> set (take (b - a) (drop a xs))" by simp
  then obtain i where i: "i < length (take (b - a) (drop a xs))"
      and e: "take (b - a) (drop a xs) ! i = ys ! k"
    by (auto simp: in_set_conv_nth)
  from i b have ib: "i < b - a" by simp
  with i b have "take (b - a) (drop a xs) ! i = xs ! (a + i)" by simp
  with e ib show ?thesis by (intro exI [of _ "a + i"]) simp
qed

lemma rearranged_bound:
  assumes "rearranged xs ys a b" and "b \<le> length xs"
      and "\<And>k. a \<le> k \<Longrightarrow> k < b \<Longrightarrow> P (xs ! k)"
      and "a \<le> k" "k < b"
  shows "P (ys ! k)"
  using rearranged_nth_in [OF assms(1,4,5,2)] assms(3) by auto

lemma partition_loop_spec:
  assumes "0 \<le> low" "low \<le> lower" "lower \<le> i" "i \<le> high" "nat high < length ps"
      and "\<forall>k. nat low \<le> k \<and> k < nat lower \<longrightarrow> level (ps ! k) \<le> level x"
      and "\<forall>k. nat lower \<le> k \<and> k < nat i \<longrightarrow> level x < level (ps ! k)"
      and "partition_loop ps x high lower i = (ps', p)"
  shows "lower \<le> p \<and> p \<le> high \<and> rearranged ps ps' (nat low) (nat high) \<and>
         (\<forall>k. nat low \<le> k \<and> k < nat p \<longrightarrow> level (ps' ! k) \<le> level x) \<and>
         (\<forall>k. nat p \<le> k \<and> k < nat high \<longrightarrow> level x < level (ps' ! k))"
  using assms
proof (induction ps x high lower i rule: partition_loop.induct)
  case (1 players x high lower i)
  note low0 = "1.prems"(1) and ll = "1.prems"(2) and li = "1.prems"(3) and ih = "1.prems"(4)
    and len = "1.prems"(5) and le = "1.prems"(6) and gt = "1.prems"(7) and res = "1.prems"(8)
  note eq = partition_loop.simps [of players x high lower i]
  show ?case
  proof (cases "i < high")
    case False
    with ih have "i = high" by simp
    with False eq res have "ps' = players" "p = lower" by simp_all
    with le gt li \<open>i = high\<close> show ?thesis by (simp add: rearranged_refl)
  next
    case lt: True
    show ?thesis
    proof (cases "level (players ! nat i) \<le> level x")
      case True
      let ?ps1 = "swap players (nat lower) (nat i)"
      from lt True eq res have res1: "partition_loop ?ps1 x high (lower + 1) (i + 1) = (ps', p)"
        by simp
      from low0 ll li lt len have b: "nat lower < length players" "nat i < length players"
        by linarith+
      note nth = nth_swap [OF b]
      from low0 ll li have n1: "nat (lower + 1) = Suc (nat lower)" "nat (i + 1) = Suc (nat i)"
        by linarith+
      from low0 ll li have nli: "nat lower \<le> nat i" by linarith
      have le1: "\<forall>k. nat low \<le> k \<and> k < nat (lower + 1) \<longrightarrow> level (?ps1 ! k) \<le> level x"
      proof (intro allI impI, elim conjE)
        fix k assume k: "nat low \<le> k" "k < nat (lower + 1)"
        show "level (?ps1 ! k) \<le> level x"
        proof (cases "k = nat lower")
          case True
          with nth True \<open>level (players ! nat i) \<le> level x\<close> show ?thesis by simp
        next
          case False
          with k n1 have kl: "k < nat lower" by simp
          with nli have "k \<noteq> nat i" by simp
          with False nth have "?ps1 ! k = players ! k" by simp
          with le k(1) kl show ?thesis by simp
        qed
      qed
      have gt1: "\<forall>k. nat (lower + 1) \<le> k \<and> k < nat (i + 1) \<longrightarrow> level x < level (?ps1 ! k)"
      proof (intro allI impI, elim conjE)
        fix k assume k: "nat (lower + 1) \<le> k" "k < nat (i + 1)"
        from k n1 have kl: "nat lower < k" "k \<le> nat i" by simp_all
        show "level x < level (?ps1 ! k)"
        proof (cases "k = nat i")
          case True
          with nth have "?ps1 ! k = players ! nat lower" by simp
          moreover from kl True gt have "level x < level (players ! nat lower)" by simp
          ultimately show ?thesis by simp
        next
          case False
          with kl nth have "?ps1 ! k = players ! k" by simp
          moreover from kl False gt have "level x < level (players ! k)" by simp
          ultimately show ?thesis by simp
        qed
      qed
      from low0 ll have ll1: "low \<le> lower + 1" by simp
      from li have li1: "lower + 1 \<le> i + 1" by simp
      from lt have ih1: "i + 1 \<le> high" by simp
      from len have len1: "nat high < length ?ps1" by simp
      from "1.IH"(1) [OF lt True low0 ll1 li1 ih1 len1 le1 gt1 res1]
      have r: "lower + 1 \<le> p" "p \<le> high" "rearranged ?ps1 ps' (nat low) (nat high)"
        "\<forall>k. nat low \<le> k \<and> k < nat p \<longrightarrow> level (ps' ! k) \<le> level x"
        "\<forall>k. nat p \<le> k \<and> k < nat high \<longrightarrow> level x < level (ps' ! k)"
        by blast+
      have "rearranged players ?ps1 (nat low) (nat high)"
      proof (rule rearranged_swap)
        show "nat low \<le> nat lower" using low0 ll by linarith
        show "nat lower < nat high" using low0 ll li lt by linarith
        show "nat low \<le> nat i" using low0 ll li by linarith
        show "nat i < nat high" using low0 ll li lt by linarith
        show "nat high \<le> length players" using len by simp
      qed
      from rearranged_trans [OF this r(3)] r show ?thesis by simp
    next
      case False
      with lt eq res have res1: "partition_loop players x high lower (i + 1) = (ps', p)"
        by simp
      from low0 ll li have n1: "nat (i + 1) = Suc (nat i)" by linarith
      have gt1: "\<forall>k. nat lower \<le> k \<and> k < nat (i + 1) \<longrightarrow> level x < level (players ! k)"
      proof (intro allI impI, elim conjE)
        fix k assume k: "nat lower \<le> k" "k < nat (i + 1)"
        show "level x < level (players ! k)"
        proof (cases "k = nat i")
          case True
          with False show ?thesis by simp
        next
          case F: False
          with k n1 have "k < nat i" by simp
          with gt k(1) show ?thesis by simp
        qed
      qed
      from li have li1: "lower \<le> i + 1" by simp
      from lt have ih1: "i + 1 \<le> high" by simp
      from "1.IH"(2) [OF lt False low0 ll li1 ih1 len le gt1 res1] show ?thesis .
    qed
  qed
qed

lemma partition_spec:
  assumes low0: "0 \<le> low" and lh: "low \<le> high" and len: "nat high < length ps"
      and res: "partition ps low high = (ps', p)"
  shows "low \<le> p \<and> p \<le> high \<and> rearranged ps ps' (nat low) (Suc (nat high)) \<and>
         (\<forall>k. nat low \<le> k \<and> k < nat p \<longrightarrow> level (ps' ! k) \<le> level (ps' ! nat p)) \<and>
         (\<forall>k. nat p < k \<and> k \<le> nat high \<longrightarrow> level (ps' ! nat p) < level (ps' ! k))"
proof -
  let ?x = "ps ! nat high"
  obtain ps1 where loop: "partition_loop ps ?x high low low = (ps1, p)"
    and ps': "ps' = swap ps1 (nat p) (nat high)"
    using res by (auto simp: partition_def Let_def split: prod.splits)
  from partition_loop_spec [OF low0 order_refl order_refl lh len _ _ loop]
  have lp: "low \<le> p" and ph: "p \<le> high" and r1: "rearranged ps ps1 (nat low) (nat high)"
    and le1: "\<forall>k. nat low \<le> k \<and> k < nat p \<longrightarrow> level (ps1 ! k) \<le> level ?x"
    and gt1: "\<forall>k. nat p \<le> k \<and> k < nat high \<longrightarrow> level ?x < level (ps1 ! k)"
    by simp_all
  from r1 have l1: "length ps1 = length ps" by (simp add: rearranged_def)
  from rearranged_nth_out [OF r1 _ len] have xh: "ps1 ! nat high = ?x" by simp
  from low0 lp ph len l1 have b: "nat p < length ps1" "nat high < length ps1" by linarith+
  note nth = nth_swap [OF b]
  from low0 lp ph have nph: "nat p \<le> nat high" by linarith
  have piv: "ps' ! nat p = ?x" using nth xh ps' by simp
  have le: "\<forall>k. nat low \<le> k \<and> k < nat p \<longrightarrow> level (ps' ! k) \<le> level (ps' ! nat p)"
  proof (intro allI impI, elim conjE)
    fix k assume k: "nat low \<le> k" "k < nat p"
    with nph have "k \<noteq> nat p" "k \<noteq> nat high" by simp_all
    with nth ps' have "ps' ! k = ps1 ! k" by simp
    with le1 k piv show "level (ps' ! k) \<le> level (ps' ! nat p)" by simp
  qed
  have gt: "\<forall>k. nat p < k \<and> k \<le> nat high \<longrightarrow> level (ps' ! nat p) < level (ps' ! k)"
  proof (intro allI impI, elim conjE)
    fix k assume k: "nat p < k" "k \<le> nat high"
    show "level (ps' ! nat p) < level (ps' ! k)"
    proof (cases "k = nat high")
      case True
      with nth ps' have "ps' ! k = ps1 ! nat p" by simp
      moreover from k True gt1 have "level ?x < level (ps1 ! nat p)" by simp
      ultimately show ?thesis using piv by simp
    next
      case False
      with k nth ps' have "ps' ! k = ps1 ! k" by simp
      moreover from k False gt1 have "level ?x < level (ps1 ! k)" by simp
      ultimately show ?thesis using piv by simp
    qed
  qed
  have "rearranged ps1 ps' (nat low) (Suc (nat high))"
    unfolding ps'
  proof (rule rearranged_swap)
    show "nat low \<le> nat p" using low0 lp by linarith
    show "nat p < Suc (nat high)" using nph by simp
    show "nat low \<le> nat high" using low0 lh by linarith
    show "nat high < Suc (nat high)" by simp
    show "Suc (nat high) \<le> length ps1" using b by simp
  qed
  moreover have "rearranged ps ps1 (nat low) (Suc (nat high))"
    by (rule rearranged_mono [OF r1]) simp_all
  ultimately have "rearranged ps ps' (nat low) (Suc (nat high))"
    using rearranged_trans by blast
  with lp ph le gt show ?thesis by blast
qed

lemma quickSort_spec:
  assumes "0 \<le> low" "low \<le> high + 1" "nat (high + 1) \<le> length ps"
  shows "rearranged ps (quickSort ps low high) (nat low) (nat (high + 1)) \<and>
         level_sorted (quickSort ps low high) (nat low) (nat (high + 1))"
  using assms
proof (induction ps low high rule: quickSort.induct)
  case (1 players low high)
  note low0 = "1.prems"(1) and lh1 = "1.prems"(2) and len = "1.prems"(3)
  note eq = quickSort.simps [of players low high]
  show ?case
  proof (cases "low < high")
    case False
    with lh1 low0 have "nat (high + 1) \<le> Suc (nat low)" by linarith
    then have "level_sorted players (nat low) (nat (high + 1))"
      unfolding level_sorted_def
      by (metis le_antisym less_Suc_eq_le order_refl order_trans less_le_trans)
    with False eq show ?thesis by (simp add: rearranged_refl)
  next
    case lt: True
    obtain ps1 p where part: "partition players low high = (ps1, p)" by (cases "partition players low high")
    from low0 lt have lh: "low \<le> high" and nh: "nat (high + 1) = Suc (nat high)" by linarith+
    from len nh have lenh: "nat high < length players" by simp
    from partition_spec [OF low0 lh lenh part]
    have lp: "low \<le> p" and ph: "p \<le> high"
      and r1: "rearranged players ps1 (nat low) (Suc (nat high))"
      and le1: "\<forall>k. nat low \<le> k \<and> k < nat p \<longrightarrow> level (ps1 ! k) \<le> level (ps1 ! nat p)"
      and gt1: "\<forall>k. nat p < k \<and> k \<le> nat high \<longrightarrow> level (ps1 ! nat p) < level (ps1 ! k)"
      by blast+
    from r1 have l1: "length ps1 = length players" by (simp add: rearranged_def)
    let ?ps2 = "quickSort ps1 low (p - 1)"
    let ?ps3 = "quickSort ?ps2 (p + 1) high"
    from low0 lp have np: "nat (p - 1 + 1) = nat p" "nat (p + 1) = Suc (nat p)" by linarith+
    from low0 lp ph have nph: "nat low \<le> nat p" "nat p \<le> nat high" by linarith+
    have pre2: "low \<le> p - 1 + 1" "nat (p - 1 + 1) \<le> length ps1"
      using lp nph lenh l1 np by simp_all
    from "1.IH"(1) [OF lt part [symmetric] low0 pre2]
    have r2: "rearranged ps1 ?ps2 (nat low) (nat p)"
      and s2: "level_sorted ?ps2 (nat low) (nat p)"
      by (simp_all add: np)
    from r2 have l2: "length ?ps2 = length players" using l1 by (simp add: rearranged_def)
    have pre3: "0 \<le> p + 1" "p + 1 \<le> high + 1" "nat (high + 1) \<le> length ?ps2"
      using low0 lp ph len l2 by simp_all
    from "1.IH"(2) [OF lt part [symmetric] pre3]
    have r3: "rearranged ?ps2 ?ps3 (Suc (nat p)) (Suc (nat high))"
      and s3: "level_sorted ?ps3 (Suc (nat p)) (Suc (nat high))"
      by (simp_all add: np nh)
    have res: "quickSort players low high = ?ps3"
      using lt part eq by simp
    have r12: "rearranged players ?ps2 (nat low) (Suc (nat high))"
      using rearranged_trans [OF r1 rearranged_mono [OF r2 order_refl]] nph by simp
    have r: "rearranged players ?ps3 (nat low) (Suc (nat high))"
      using rearranged_trans [OF r12 rearranged_mono [OF r3 _ order_refl]] nph by simp
    have piv2: "?ps2 ! nat p = ps1 ! nat p"
      by (rule rearranged_nth_out [OF r2]) (use nph lenh l1 in simp_all)
    have piv3: "?ps3 ! nat p = ps1 ! nat p"
      using rearranged_nth_out [OF r3, of "nat p"] nph lenh l2 piv2 by simp
    have left2: "level (?ps2 ! k) \<le> level (ps1 ! nat p)" if "nat low \<le> k" "k < nat p" for k
      using rearranged_bound [OF r2, of "\<lambda>q. level q \<le> level (ps1 ! nat p)" k] le1 that nph lenh l1
      by simp
    have left3: "?ps3 ! k = ?ps2 ! k" if "k \<le> nat p" for k
      by (rule rearranged_nth_out [OF r3]) (use that nph lenh l2 in simp_all)
    have right2: "?ps2 ! k = ps1 ! k" if "nat p \<le> k" "k \<le> nat high" for k
      by (rule rearranged_nth_out [OF r2]) (use that lenh l1 in simp_all)
    have right3: "level (ps1 ! nat p) < level (?ps3 ! k)" if "nat p < k" "k \<le> nat high" for k
    proof -
      have "\<And>k. Suc (nat p) \<le> k \<Longrightarrow> k < Suc (nat high) \<Longrightarrow> level (ps1 ! nat p) < level (?ps2 ! k)"
        using gt1 right2 by simp
      from rearranged_bound [OF r3, of "\<lambda>q. level (ps1 ! nat p) < level q" k, OF _ this] that lenh l2
      show ?thesis by simp
    qed
    have "level (?ps3 ! i) \<le> level (?ps3 ! j)" if ij: "nat low \<le> i" "i \<le> j" "j < Suc (nat high)" for i j
    proof -
      consider "j < nat p" | "i \<le> nat p" "nat p \<le> j" | "nat p < i" by linarith
      then show ?thesis
      proof cases
        case 1
        with ij s2 have "level (?ps2 ! i) \<le> level (?ps2 ! j)" by (simp add: level_sorted_def)
        with 1 ij left3 show ?thesis by simp
      next
        case 2
        have a: "level (?ps3 ! i) \<le> level (ps1 ! nat p)"
        proof (cases "i = nat p")
          case True
          with piv3 show ?thesis by simp
        next
          case False
          with 2 ij left2 [of i] left3 [of i] show ?thesis by simp
        qed
        have b: "level (ps1 ! nat p) \<le> level (?ps3 ! j)"
        proof (cases "j = nat p")
          case True
          with piv3 show ?thesis by simp
        next
          case False
          with 2 ij right3 [of j] show ?thesis by simp
        qed
        from a b show ?thesis by simp
      next
        case 3
        with ij s3 show ?thesis by (simp add: level_sorted_def)
      qed
    qed
    then have "level_sorted ?ps3 (nat low) (Suc (nat high))" by (simp add: level_sorted_def)
    with r res nh show ?thesis by simp
  qed
qed

lemma split_at_rearranged:
  assumes r: "rearranged xs ys a b" and ab: "a \<le> b" and b: "b \<le> length xs"
      and c: "c \<le> a \<or> b \<le> c" and s: "split_at xs c"
  shows "split_at ys c"
  unfolding split_at_def
proof (intro allI impI, elim conjE)
  fix i j assume ij: "i < c" "c \<le> j" "j < length ys"
  from r have l: "length ys = length xs" by (simp add: rearranged_def)
  have "\<exists>i'. i' < c \<and> ys ! i = xs ! i'"
  proof (cases "i < a \<or> b \<le> i")
    case True
    from rearranged_nth_out [OF r True] ij l have "ys ! i = xs ! i" by simp
    with ij show ?thesis by blast
  next
    case False
    then have i: "a \<le> i" "i < b" by simp_all
    with ij c have "b \<le> c" by linarith
    from rearranged_nth_in [OF r i b] obtain i' where "a \<le> i'" "i' < b" "ys ! i = xs ! i'"
      by blast
    with \<open>b \<le> c\<close> show ?thesis by (intro exI [of _ i']) simp
  qed
  then obtain i' where i': "i' < c" "ys ! i = xs ! i'" by blast
  have "\<exists>j'. c \<le> j' \<and> j' < length xs \<and> ys ! j = xs ! j'"
  proof (cases "j < a \<or> b \<le> j")
    case True
    from rearranged_nth_out [OF r True] ij l have "ys ! j = xs ! j" by simp
    with ij l show ?thesis by (intro exI [of _ j]) simp
  next
    case False
    then have j: "a \<le> j" "j < b" by simp_all
    with ij c have "c \<le> a" by linarith
    from rearranged_nth_in [OF r j b] obtain j' where "a \<le> j'" "j' < b" "ys ! j = xs ! j'"
      by blast
    with \<open>c \<le> a\<close> b show ?thesis by (intro exI [of _ j']) simp
  qed
  then obtain j' where j': "c \<le> j'" "j' < length xs" "ys ! j = xs ! j'" by blast
  from s i'(1) j'(1,2) have "level (xs ! i') \<le> level (xs ! j')" by (simp add: split_at_def)
  with i'(2) j'(3) show "level (ys ! i) \<le> level (ys ! j)" by simp
qed

lemma split_at_pivot:
  assumes lo: "split_at ps a" and hi: "split_at ps (Suc h)"
      and ap: "a \<le> p" and ph: "p \<le> h"
      and le: "\<forall>k. a \<le> k \<and> k < p \<longrightarrow> level (ps ! k) \<le> level (ps ! p)"
      and gt: "\<forall>k. p < k \<and> k \<le> h \<longrightarrow> level (ps ! p) < level (ps ! k)"
  shows "split_at ps p \<and> split_at ps (Suc p)"
proof -
  have main: "level (ps ! i) \<le> level (ps ! j)" if ij: "i \<le> p" "p \<le> j" "j < length ps" for i j
  proof (cases "i < a")
    case True
    with lo ij ap show ?thesis by (simp add: split_at_def)
  next
    case ia: False
    show ?thesis
    proof (cases "h < j")
      case True
      with hi ij ph show ?thesis by (simp add: split_at_def)
    next
      case False
      have 1: "level (ps ! i) \<le> level (ps ! p)"
        using le ia ij(1) by (cases "i = p") simp_all
      have 2: "level (ps ! p) \<le> level (ps ! j)"
        using gt False ij(2) by (cases "j = p") (simp_all add: less_imp_le)
      from 1 2 show ?thesis by simp
    qed
  qed
  then show ?thesis by (simp add: split_at_def)
qed

lemma quickSelect_spec:
  assumes "0 \<le> low" "low \<le> high + 1" "nat (high + 1) \<le> length ps"
      and "low \<le> k" "k \<le> high + 1"
      and "split_at ps (nat low)" "split_at ps (nat (high + 1))"
  shows "rearranged ps (quickSelect ps low high k) (nat low) (nat (high + 1)) \<and>
         split_at (quickSelect ps low high k) (nat k)"
  using assms
proof (induction ps low high k rule: quickSelect.induct)
  case (1 players low high k)
  note low0 = "1.prems"(1) and lh1 = "1.prems"(2) and len = "1.prems"(3)
    and lk = "1.prems"(4) and kh = "1.prems"(5) and slo = "1.prems"(6) and shi = "1.prems"(7)
  note eq = quickSelect.simps [of players low high k]
  show ?case
  proof (cases "low < high")
    case False
    with lh1 lk kh have "k = low \<or> k = high + 1" by linarith
    with slo shi have "split_at players (nat k)" by auto
    with False eq show ?thesis by (simp add: rearranged_refl)
  next
    case lt: True
    obtain ps1 p where part: "partition players low high = (ps1, p)"
      by (cases "partition players low high")
    from low0 lt have lh: "low \<le> high" and nh: "nat (high + 1) = Suc (nat high)" by linarith+
    from len nh have lenh: "nat high < length players" by simp
    from partition_spec [OF low0 lh lenh part]
    have lp: "low \<le> p" and ph: "p \<le> high"
      and r1: "rearranged players ps1 (nat low) (Suc (nat high))"
      and le1: "\<forall>k. nat low \<le> k \<and> k < nat p \<longrightarrow> level (ps1 ! k) \<le> level (ps1 ! nat p)"
      and gt1: "\<forall>k. nat p < k \<and> k \<le> nat high \<longrightarrow> level (ps1 ! nat p) < level (ps1 ! k)"
      by blast+
    from r1 have l1: "length ps1 = length players" by (simp add: rearranged_def)
    from low0 lp have np: "nat (p - 1 + 1) = nat p" "nat (p + 1) = Suc (nat p)" by linarith+
    from low0 lp ph have nph: "nat low \<le> nat p" "nat p \<le> nat high" by linarith+
    have ab: "nat low \<le> Suc (nat high)" using nph by simp
    have bl: "Suc (nat high) \<le> length players" using lenh by simp
    have slo1: "split_at ps1 (nat low)"
      by (rule split_at_rearranged [OF r1 ab bl _ slo]) simp
    have shi1: "split_at ps1 (Suc (nat high))"
      by (rule split_at_rearranged [OF r1 ab bl]) (use shi nh in simp_all)
    from split_at_pivot [OF slo1 shi1 nph le1 gt1]
    have sp: "split_at ps1 (nat p)" and sp1: "split_at ps1 (Suc (nat p))" by simp_all
    consider "p = k" | "p < k" | "k < p" by linarith
    then show ?thesis
    proof cases
      case 1
      with lt part eq have "quickSelect players low high k = ps1" by simp
      with r1 sp 1 nh show ?thesis by simp
    next
      case 2
      with lt part eq have res: "quickSelect players low high k = quickSelect ps1 (p + 1) high k"
        by simp
      have pre: "0 \<le> p + 1" "p + 1 \<le> high + 1" "nat (high + 1) \<le> length ps1" "p + 1 \<le> k"
        using low0 lp ph len l1 2 by simp_all
      have ne: "p \<noteq> k" using 2 by simp
      from "1.IH"(1) [OF lt part [symmetric] ne 2 pre kh] sp1 shi1 np nh
      have r2: "rearranged ps1 (quickSelect ps1 (p + 1) high k) (Suc (nat p)) (Suc (nat high))"
        and s2: "split_at (quickSelect ps1 (p + 1) high k) (nat k)"
        by simp_all
      from rearranged_trans [OF r1 rearranged_mono [OF r2 _ order_refl]] nph
      have "rearranged players (quickSelect ps1 (p + 1) high k) (nat low) (Suc (nat high))"
        by simp
      with s2 res nh show ?thesis by simp
    next
      case 3
      with lt part eq have res: "quickSelect players low high k = quickSelect ps1 low (p - 1) k"
        by simp
      have pre: "low \<le> p - 1 + 1" "nat (p - 1 + 1) \<le> length ps1" "k \<le> p - 1 + 1"
        using lp nph lenh l1 np 3 by simp_all
      have ne: "p \<noteq> k" "\<not> p < k" using 3 by simp_all
      from "1.IH"(2) [OF lt part [symmetric] ne low0 pre(1,2) lk pre(3)] slo1 sp np
      have r2: "rearranged ps1 (quickSelect ps1 low (p - 1) k) (nat low) (nat p)"
        and s2: "split_at (quickSelect ps1 low (p - 1) k) (nat k)"
        by simp_all
      from rearranged_trans [OF r1 rearranged_mono [OF r2 order_refl]] nph
      have "rearranged players (quickSelect ps1 low (p - 1) k) (nat low) (Suc (nat high))"
        by simp
      with s2 res nh show ?thesis by simp
    qed
  qed
qed

lemma level_mono: "p \<le> q \<Longrightarrow> level p \<le> level q"
  by (auto simp: less_eq_Player_def key_le_def player_key_def)

lemma sorted_map_level: "sorted ps \<Longrightarrow> sorted (map level ps)"
  by (induction ps) (auto intro: level_mono)

lemma map_level_sort: "map level (sort ps) = sort (map level ps)"
proof (rule properties_for_sort [symmetric])
  show "mset (map level (sort ps)) = mset (map level ps)" by simp
  show "sorted (map level (sort ps))" by (rule sorted_map_level) simp
qed

lemma heapRank_levels:
  "map level (r_top (snd (heapRank players))) =
     drop (length players - length players div 10) (sort (map level players))"
  by (simp add: heapRank_top drop_map flip: map_level_sort)

lemma quickSelectRank_facts:
  fixes players :: "Player list"
  defines "n \<equiv> length players"
  defines "ps2 \<equiv> fst (quickSelectRank players)"
  shows "r_top (snd (quickSelectRank players)) = drop (n - n div 10) ps2"
    and "rearranged players ps2 0 n"
    and "split_at ps2 (n - n div 10)"
    and "level_sorted ps2 (n - n div 10) n"
proof -
  let ?K = "int n - int (n div 10)"
  let ?ps1 = "quickSelect players 0 (int n - 1) ?K"
  have nK: "nat ?K = n - n div 10" by simp
  have K: "0 \<le> ?K" "?K \<le> int n - 1 + 1" by simp_all
  have ps2: "ps2 = quickSort ?ps1 ?K (int n - 1)"
    by (simp add: ps2_def quickSelectRank_def Let_def n_def)
  show "r_top (snd (quickSelectRank players)) = drop (n - n div 10) ps2"
    using nK by (simp add: ps2_def quickSelectRank_def Let_def n_def)
  have s0: "split_at players (nat 0)" by (simp add: split_at_def)
  have sn: "split_at players (nat (int n - 1 + 1))" by (simp add: split_at_def n_def)
  have "rearranged players ?ps1 (nat 0) (nat (int n - 1 + 1)) \<and> split_at ?ps1 (nat ?K)"
    by (rule quickSelect_spec [OF _ _ _ K s0 sn]) (simp_all add: n_def)
  then have r1: "rearranged players ?ps1 0 n" and s1: "split_at ?ps1 (n - n div 10)"
    by (simp_all only: nK) simp_all
  from r1 have l1: "length ?ps1 = n" by (simp add: rearranged_def n_def)
  have "rearranged ?ps1 (quickSort ?ps1 ?K (int n - 1)) (nat ?K) (nat (int n - 1 + 1)) \<and>
        level_sorted (quickSort ?ps1 ?K (int n - 1)) (nat ?K) (nat (int n - 1 + 1))"
    by (rule quickSort_spec [OF K]) (simp add: l1)
  then have r2: "rearranged ?ps1 ps2 (n - n div 10) n"
    and s2: "level_sorted ps2 (n - n div 10) n"
    by (simp_all only: nK ps2) simp_all
  show "level_sorted ps2 (n - n div 10) n" by (rule s2)
  show "split_at ps2 (n - n div 10)"
    by (rule split_at_rearranged [OF r2 _ _ _ s1]) (simp_all add: l1)
  show "rearranged players ps2 0 n"
    by (rule rearranged_trans [OF r1 rearranged_mono [OF r2]]) simp_all
qed

lemma quickSelectRank_mset: "mset (fst (quickSelectRank players)) = mset players"
  using quickSelectRank_facts(2) [of players] by (simp add: rearranged_def)

lemma quickSelectRank_levels:
  "map level (r_top (snd (quickSelectRank players))) =
     drop (length players - length players div 10) (sort (map level players))"
proof -
  define n where "n = length players"
  define k where "k = n - n div 10"
  define ps2 where "ps2 = fst (quickSelectRank players)"
  define L where "L = map level ps2"
  note f = quickSelectRank_facts [of players, folded n_def, folded k_def ps2_def]
  from f(2) have len: "length ps2 = n" and ms: "mset ps2 = mset players"
    by (simp_all add: rearranged_def n_def)
  have lenL: "length L = n" by (simp add: L_def len)
  have kn: "k \<le> n" by (simp add: k_def)
  have nthL: "\<And>i. i < n \<Longrightarrow> L ! i = level (ps2 ! i)" by (simp add: L_def len)
  have sorted_top: "sorted (drop k L)"
    unfolding sorted_iff_nth_mono
  proof (intro allI impI)
    fix i j assume ij: "i \<le> j" "j < length (drop k L)"
    with lenL have b: "k \<le> k + i" "k + i \<le> k + j" "k + j < n" by simp_all
    with f(4) have "level (ps2 ! (k + i)) \<le> level (ps2 ! (k + j))"
      unfolding level_sorted_def by blast
    moreover from b have "k + i < n" by simp
    ultimately have "L ! (k + i) \<le> L ! (k + j)" using nthL b(3) by simp
    with ij lenL kn show "drop k L ! i \<le> drop k L ! j" by simp
  qed
  have split: "\<forall>a \<in> set (take k L). \<forall>b \<in> set (drop k L). a \<le> b"
  proof (intro ballI)
    fix a b assume "a \<in> set (take k L)" "b \<in> set (drop k L)"
    then obtain i j where i: "i < length (take k L)" "a = take k L ! i"
      and j: "j < length (drop k L)" "b = drop k L ! j"
      by (auto simp: in_set_conv_nth)
    from i lenL kn have a: "i < k" "a = L ! i" by simp_all
    from j lenL kn have b: "k + j < n" "b = L ! (k + j)" by simp_all
    from f(3) a(1) b(1) len have "level (ps2 ! i) \<le> level (ps2 ! (k + j))"
      by (simp add: split_at_def)
    with a b kn nthL show "a \<le> b" by simp
  qed
  have "map level (r_top (snd (quickSelectRank players))) = drop k L"
    by (simp add: f(1) drop_map L_def)
  also have "\<dots> = sort (drop k L)" using sorted_top by (simp add: sorted_sort_id)
  also have "\<dots> = drop k (sort L)" by (rule sort_drop_le [OF split]) (simp add: lenL kn)
  also have "sort L = sort (map level players)"
    by (rule mset_eq_sort_eq) (simp add: ms L_def)
  finally show ?thesis by (simp add: k_def n_def)
qed

section \<open>Properties of the offline rankers\<close>

lemma offline_top_sorted:
  "sorted (map level (r_top (snd (heapRank players))))"
  "sorted (map level (r_top (snd (quickSelectRank players))))"
  by (simp_all add: heapRank_levels quickSelectRank_levels sorted_wrt_drop)

text \<open>
  Claim C2: for every input vector of \<open>n\<close> players, the top sequences returned by
  \<open>heapRank\<close> and by \<open>quickSelectRank\<close> have length \<open>n div 10\<close>, the floor of
  a tenth of \<open>n\<close>; for fewer than ten players they are empty.
\<close>

theorem offline_top_length:
  "length (r_top (snd (heapRank players))) = length players div 10 \<and>
   length (r_top (snd (quickSelectRank players))) = length players div 10 \<and>
   (length players < 10 \<longrightarrow>
      r_top (snd (heapRank players)) = [] \<and> r_top (snd (quickSelectRank players)) = [])"
proof -
  have "length (map level (r_top (snd (heapRank players)))) = length players div 10"
    unfolding heapRank_levels by simp
  then have 1: "length (r_top (snd (heapRank players))) = length players div 10" by simp
  have "length (map level (r_top (snd (quickSelectRank players)))) = length players div 10"
    unfolding quickSelectRank_levels by simp
  then have 2: "length (r_top (snd (quickSelectRank players))) = length players div 10" by simp
  from 1 2 show ?thesis by auto
qed

theorem offline_top_length_witness:
  "length [Player ''a'' 3, Player ''b'' 1, Player ''c'' 4, Player ''d'' 10, Player ''e'' 5,
           Player ''f'' 9, Player ''g'' 2, Player ''h'' 6, Player ''i'' 8, Player ''j'' 7] div 10 = 1 \<and>
   r_top (snd (heapRank
          [Player ''a'' 3, Player ''b'' 1, Player ''c'' 4, Player ''d'' 10, Player ''e'' 5,
           Player ''f'' 9, Player ''g'' 2, Player ''h'' 6, Player ''i'' 8, Player ''j'' 7])) =
     [Player ''d'' 10] \<and>
   r_top (snd (quickSelectRank
          [Player ''a'' 3, Player ''b'' 1, Player ''c'' 4, Player ''d'' 10, Player ''e'' 5,
           Player ''f'' 9, Player ''g'' 2, Player ''h'' 6, Player ''i'' 8, Player ''j'' 7])) =
     [Player ''d'' 10] \<and>
   length [Player ''a'' 3, Player ''b'' 1] < 10 \<and>
   r_top (snd (heapRank [Player ''a'' 3, Player ''b'' 1])) = [] \<and>
   r_top (snd (quickSelectRank [Player ''a'' 3, Player ''b'' 1])) = []"
proof -
  let ?xs = "[Player ''a'' 3, Player ''b'' 1, Player ''c'' 4, Player ''d'' 10, Player ''e'' 5,
           Player ''f'' 9, Player ''g'' 2, Player ''h'' 6, Player ''i'' 8, Player ''j'' 7]"
  let ?ys = "[Player ''a'' 3, Player ''b'' 1]"
  have 1: "length ?xs div 10 = 1" by simp
  have 2: "r_top (snd (heapRank ?xs)) = [Player ''d'' 10]"
    unfolding heapRank_top by code_simp
  have 3: "r_top (snd (quickSelectRank ?xs)) = [Player ''d'' 10]" by code_simp
  have 4: "length ?ys < 10" by simp
  from 1 2 3 4 offline_top_length [of ?ys] show ?thesis by blast
qed




text \<open>
  Claim C10: \<open>heapRank\<close> and \<open>quickSelectRank\<close> only rearrange their input: the
  vector after the call holds the same multiset of players as before.
\<close>

theorem offline_rankers_permute:
  "mset (fst (heapRank players)) = mset players \<and>
   mset (fst (quickSelectRank players)) = mset players"
  by (simp add: heapRank_mset quickSelectRank_mset)

section \<open>The streaming ranker\<close>

lemma rankIncoming_loop_consume:
  "stream_inv s \<Longrightarrow>
   rankIncoming_loop k s c w m =
     Inr (s\<lparr>currIndex := length (stream_players s)\<rparr>,
          consume k (drop (currIndex s) (stream_players s)) c w m)"
proof (induction k s c w m rule: rankIncoming_loop.induct)
  case (1 k s c w m)
  note inv = "1.prems"
  note eq = rankIncoming_loop.simps [of k s c w m]
  from inv have le: "currIndex s \<le> length (stream_players s)" by (simp only: stream_inv_def)
  have rem: "remaining s = length (stream_players s) - currIndex s"
    by (rule remaining_inv [OF inv])
  show ?case
  proof (cases "0 < remaining s")
    case False
    with rem le have e: "currIndex s = length (stream_players s)" by simp
    then have "s\<lparr>currIndex := length (stream_players s)\<rparr> = s" by simp
    with False eq e show ?thesis by simp
  next
    case True
    let ?p = "stream_players s ! currIndex s"
    let ?s1 = "s\<lparr>currIndex := currIndex s + 1\<rparr>"
    from True rem have lt: "currIndex s < length (stream_players s)" by simp
    then have np: "nextPlayer s = Inr (?p, ?s1)" by (simp add: nextPlayer_def)
    have inv1: "stream_inv ?s1" by (rule nextPlayer_inv [OF inv np])
    have d: "drop (currIndex s) (stream_players s) = ?p # drop (currIndex s + 1) (stream_players s)"
      using lt by (simp add: Cons_nth_drop_Suc)
    from "1.IH" [OF True np refl refl inv1]
    have "rankIncoming_loop k ?s1 (c + 1) (window_step k ?p w)
            (cutoff_step k (c + 1) (window_step k ?p w) m) =
          Inr (s\<lparr>currIndex := length (stream_players s)\<rparr>,
               consume k (drop (currIndex s + 1) (stream_players s)) (c + 1)
                 (window_step k ?p w) (cutoff_step k (c + 1) (window_step k ?p w) m))"
      by simp
    with True np eq show ?thesis by (simp add: d Let_def)
  qed
qed

lemma make_min_heap_props:
  fixes xs :: "'a::linorder list"
  shows "is_heap (>) (length xs) (make_heap (>) xs)" "mset (make_heap (>) xs) = mset xs"
proof -
  have "is_heap (>) (length xs) (make_heap (>) xs) \<and> mset (make_heap (>) xs) = mset xs"
    by (rule make_heap_props) auto
  then show "is_heap (>) (length xs) (make_heap (>) xs)" "mset (make_heap (>) xs) = mset xs"
    by blast+
qed

lemma window_inv_empty: "window_inv k [] []"
  by (simp add: window_inv_def is_heap_def)

lemma window_step_inv:
  assumes k: "0 < k" and inv: "window_inv k seen w"
  shows "window_inv k (seen @ [p]) (window_step k p w)"
    and "length w = k \<Longrightarrow> w ! 0 \<le> window_step k p w ! 0"
proof -
  from inv obtain D where len: "length w = min (length seen) k"
    and hp: "is_heap (>) (length w) w"
    and ms: "mset seen = D + mset w" and dw: "\<forall>d \<in># D. \<forall>x \<in> set w. d \<le> x"
    unfolding window_inv_def by blast
  have sz: "length seen = size D + length w"
    using ms by (metis size_mset size_union)
  have A: "window_inv k (seen @ [p]) (window_step k p w) \<and>
           (length w = k \<longrightarrow> w ! 0 \<le> window_step k p w ! 0)"
  proof (cases "length w < k")
    case True
    let ?w' = "make_heap (>) (w @ [p])"
    have ws: "window_step k p w = ?w'" using True by (simp add: window_step_def)
    from True len have "length w = length seen" by (simp add: min_def split: if_splits)
    with sz have "D = {#}" by simp
    have mh: "is_heap (>) (length (w @ [p])) ?w'" "mset ?w' = mset (w @ [p])"
      by (rule make_min_heap_props)+
    have 1: "length ?w' = min (length (seen @ [p])) k"
      using True \<open>length w = length seen\<close> by simp
    have 2: "is_heap (>) (length ?w') ?w'" using mh(1) by simp
    have 3: "mset (seen @ [p]) = {#} + mset ?w'"
      using ms \<open>D = {#}\<close> mh(2) by simp
    have "window_inv k (seen @ [p]) ?w'"
      unfolding window_inv_def using 1 2 3 by (intro conjI exI [of _ "{#}"]) simp_all
    with ws True show ?thesis by simp
  next
    case False
    with len have full: "length w = k" by (simp add: min_def split: if_splits)
    with k have ne: "w \<noteq> []" by auto
    have root: "\<forall>x \<in> set w. w ! 0 \<le> x"
      using min_heap_root [OF hp] by (auto simp: in_set_conv_nth)
    have l1: "length w = min (length (seen @ [p])) k" using len full by simp
    show ?thesis
    proof (cases "p > w ! 0")
      case True
      let ?w' = "replaceMin w p"
      have ws: "window_step k p w = ?w'" using True False by (simp add: window_step_def)
      note rp = replaceMin_props [OF ne hp, of p]
      from rp have l': "length ?w' = length w" and hp': "is_heap (>) (length w) ?w'"
        and ms': "mset ?w' = mset w - {#w ! 0#} + {#p#}"
        by blast+
      have in0: "w ! 0 \<in># mset w" using ne by simp
      have setw': "\<And>x. x \<in> set ?w' \<Longrightarrow> x \<in> set w \<or> x = p"
      proof -
        fix x assume "x \<in> set ?w'"
        then have "x \<in># mset w - {#w ! 0#} + {#p#}" using ms' by (metis set_mset_mset)
        then show "x \<in> set w \<or> x = p" by (auto dest: in_diffD)
      qed
      have ge: "w ! 0 \<le> x" if "x \<in> set ?w'" for x
      proof -
        from setw' [OF that] show ?thesis
        proof
          assume "x \<in> set w"
          with root show ?thesis by blast
        next
          assume "x = p"
          with True show ?thesis by simp
        qed
      qed
      have 3: "mset (seen @ [p]) = (D + {#w ! 0#}) + mset ?w'"
        using ms ms' in0 by simp
      have 4: "\<forall>d \<in># D + {#w ! 0#}. \<forall>x \<in> set ?w'. d \<le> x"
      proof (intro ballI)
        fix d x assume d: "d \<in># D + {#w ! 0#}" and x: "x \<in> set ?w'"
        from d have "d \<in># D \<or> d = w ! 0" by auto
        then show "d \<le> x"
        proof
          assume "d = w ! 0"
          with ge [OF x] show ?thesis by simp
        next
          assume dD: "d \<in># D"
          from ne have "w ! 0 \<in> set w" by simp
          with dw dD have "d \<le> w ! 0" by blast
          with ge [OF x] show ?thesis by simp
        qed
      qed
      have "window_inv k (seen @ [p]) ?w'"
        unfolding window_inv_def using l1 l' hp' 3 4
        by (intro conjI exI [of _ "D + {#w ! 0#}"]) simp_all
      moreover have "w ! 0 \<le> ?w' ! 0"
      proof (rule ge)
        from ne l' have "?w' \<noteq> []" by auto
        then show "?w' ! 0 \<in> set ?w'" by simp
      qed
      ultimately show ?thesis using ws by simp
    next
      case F2: False
      have ws: "window_step k p w = w" using F2 False by (simp add: window_step_def)
      have 3: "mset (seen @ [p]) = (D + {#p#}) + mset w" using ms by simp
      have 4: "\<forall>d \<in># D + {#p#}. \<forall>x \<in> set w. d \<le> x"
      proof (intro ballI)
        fix d x assume d: "d \<in># D + {#p#}" and x: "x \<in> set w"
        from d have "d \<in># D \<or> d = p" by auto
        then show "d \<le> x"
        proof
          assume "d = p"
          with F2 root x show ?thesis by (metis not_less order_trans)
        next
          assume "d \<in># D"
          with dw x show ?thesis by blast
        qed
      qed
      have "window_inv k (seen @ [p]) w"
        unfolding window_inv_def using l1 hp 3 4
        by (intro conjI exI [of _ "D + {#p#}"]) simp_all
      with ws show ?thesis by simp
    qed
  qed
  from A show "window_inv k (seen @ [p]) (window_step k p w)" by blast
  from A show "length w = k \<Longrightarrow> w ! 0 \<le> window_step k p w ! 0" by blast
qed

text \<open>What the invariant says about the sorted window.\<close>

lemma window_inv_sort:
  assumes "window_inv k seen w"
  shows "sort w = drop (length seen - min (length seen) k) (sort seen)"
proof -
  from assms obtain D where len: "length w = min (length seen) k"
    and ms: "mset seen = D + mset w" and dw: "\<forall>d \<in># D. \<forall>x \<in> set w. d \<le> x"
    unfolding window_inv_def by blast
  obtain ds where ds: "mset ds = D" using ex_mset by blast
  have sz: "length seen = length ds + length w"
    using ms ds by (metis size_mset size_union)
  have "mset seen = mset (ds @ w)" using ms ds by simp
  then have "sort seen = sort (ds @ w)" by (rule mset_eq_sort_eq)
  also have "\<dots> = sort ds @ sort w"
  proof (rule sort_append_le)
    show "\<forall>a \<in> set ds. \<forall>b \<in> set w. a \<le> b" using dw ds by (metis set_mset_mset)
  qed
  finally have "drop (length ds) (sort seen) = sort w" by simp
  moreover have "length ds = length seen - min (length seen) k" using sz len by simp
  ultimately show ?thesis by simp
qed

lemma cutoffs_inv_empty: "cutoffs_inv k 0 w Map.empty"
  by (auto simp: cutoffs_inv_def)

lemma cutoffs_invI:
  assumes "\<And>c'. (m c' \<noteq> None) = (0 < c' \<and> c' \<le> c \<and> c' mod k = 0)"
      and "\<And>c' v. m c' = Some v \<Longrightarrow> v \<le> level (w ! 0)"
      and "\<And>c1 c2 v1 v2. m c1 = Some v1 \<Longrightarrow> m c2 = Some v2 \<Longrightarrow> c1 < c2 \<Longrightarrow> v1 \<le> v2"
  shows "cutoffs_inv k c w m"
  unfolding cutoffs_inv_def
proof (intro conjI allI impI)
  fix c' show "(m c' \<noteq> None) = (0 < c' \<and> c' \<le> c \<and> c' mod k = 0)" by (rule assms(1))
next
  fix c' v assume "m c' = Some v"
  then show "v \<le> level (w ! 0)" by (rule assms(2))
next
  fix c1 c2 v1 v2 assume "m c1 = Some v1 \<and> m c2 = Some v2 \<and> c1 < c2"
  then show "v1 \<le> v2" using assms(3) by blast
qed

lemma cutoffs_invD:
  assumes "cutoffs_inv k c w m"
  shows "(m c' \<noteq> None) = (0 < c' \<and> c' \<le> c \<and> c' mod k = 0)"
    and "m c' = Some v \<Longrightarrow> v \<le> level (w ! 0)"
    and "m c1 = Some v1 \<Longrightarrow> m c2 = Some v2 \<Longrightarrow> c1 < c2 \<Longrightarrow> v1 \<le> v2"
proof -
  from assms have all:
    "(\<forall>c'. (m c' \<noteq> None) = (0 < c' \<and> c' \<le> c \<and> c' mod k = 0)) \<and>
     (\<forall>c' v. m c' = Some v \<longrightarrow> v \<le> level (w ! 0)) \<and>
     (\<forall>c1 c2 v1 v2. m c1 = Some v1 \<and> m c2 = Some v2 \<and> c1 < c2 \<longrightarrow> v1 \<le> v2)"
    unfolding cutoffs_inv_def .
  from all have a: "\<forall>c'. (m c' \<noteq> None) = (0 < c' \<and> c' \<le> c \<and> c' mod k = 0)"
    by (rule conjunct1)
  from all have b: "\<forall>c' v. m c' = Some v \<longrightarrow> v \<le> level (w ! 0)"
    by (rule conjunct2 [THEN conjunct1])
  from all have d: "\<forall>c1 c2 v1 v2. m c1 = Some v1 \<and> m c2 = Some v2 \<and> c1 < c2 \<longrightarrow> v1 \<le> v2"
    by (rule conjunct2 [THEN conjunct2])
  from a show "(m c' \<noteq> None) = (0 < c' \<and> c' \<le> c \<and> c' mod k = 0)" by (rule spec)
  from b show "m c' = Some v \<Longrightarrow> v \<le> level (w ! 0)" by blast
  from d show "m c1 = Some v1 \<Longrightarrow> m c2 = Some v2 \<Longrightarrow> c1 < c2 \<Longrightarrow> v1 \<le> v2" by blast
qed

lemma cutoff_step_inv:
  assumes k: "0 < k" and wi: "window_inv k seen w" and c: "c = length seen"
      and ci: "cutoffs_inv k c w m"
  shows "cutoffs_inv k (c + 1) (window_step k p w)
           (cutoff_step k (c + 1) (window_step k p w) m)"
proof -
  let ?w' = "window_step k p w"
  let ?m' = "cutoff_step k (c + 1) ?w' m"
  note keys = cutoffs_invD(1) [OF ci] and vals = cutoffs_invD(2) [OF ci]
    and mono = cutoffs_invD(3) [OF ci]
  from wi have lw: "length w = min (length seen) k" by (simp add: window_inv_def)
  from window_step_inv(1) [OF k wi, of p]
  have "length ?w' = min (length (seen @ [p])) k" by (simp add: window_inv_def)
  with k have ne: "?w' \<noteq> []" by auto
  have vals': "v \<le> level (?w' ! 0)" if "m c' = Some v" for c' v
  proof -
    from that keys [of c'] have c': "0 < c'" "c' \<le> c" "c' mod k = 0" by simp_all
    have "k \<le> c'"
    proof (rule ccontr)
      assume "\<not> k \<le> c'"
      then have "c' mod k = c'" by simp
      with c' show False by simp
    qed
    with c' c lw have "length w = k" by simp
    from window_step_inv(2) [OF k wi this, of p] have "level (w ! 0) \<le> level (?w' ! 0)"
      by (rule level_mono)
    with vals [OF that] show ?thesis by simp
  qed
  define m1 where "m1 = cutoff_step k (c + 1) ?w' m"
  have "cutoffs_inv k (c + 1) ?w' m1"
  proof (cases "(c + 1) mod k = 0")
    case False
    then have m': "m1 = m" by (simp add: m1_def cutoff_step_def)
    have "(m c' \<noteq> None) = (0 < c' \<and> c' \<le> c + 1 \<and> c' mod k = 0)" for c'
      using keys [of c'] False by (cases "c' = c + 1") auto
    then show ?thesis unfolding m' using vals' mono by (rule cutoffs_invI)
  next
    case True
    with ne have m': "m1 = m(c + 1 \<mapsto> level (?w' ! 0))" by (simp add: m1_def cutoff_step_def)
    have old: "c' \<le> c" if "m c' = Some v" for c' v
      using keys [of c'] that by simp
    have 1: "(m1 c' \<noteq> None) = (0 < c' \<and> c' \<le> c + 1 \<and> c' mod k = 0)" for c'
      using keys [of c'] True by (cases "c' = c + 1") (auto simp: m')
    have 2: "v \<le> level (?w' ! 0)" if "m1 c' = Some v" for c' v
      using that vals' by (cases "c' = c + 1") (auto simp: m')
    have 3: "v1 \<le> v2" if a: "m1 c1 = Some v1" "m1 c2 = Some v2" "c1 < c2" for c1 c2 v1 v2
    proof (cases "c2 = c + 1")
      case True
      with a have "c1 \<noteq> c + 1" "v2 = level (?w' ! 0)" by (simp_all add: m')
      with a(1) have "m c1 = Some v1" by (simp add: m')
      from vals' [OF this] \<open>v2 = level (?w' ! 0)\<close> show ?thesis by simp
    next
      case False
      with a(2) have m2: "m c2 = Some v2" by (simp add: m')
      from old [OF m2] a(3) have "c1 \<noteq> c + 1" by simp
      with a(1) have "m c1 = Some v1" by (simp add: m')
      from mono [OF this m2 a(3)] show ?thesis .
    qed
    from 1 2 3 show ?thesis by (rule cutoffs_invI)
  qed
  then show ?thesis by (simp only: m1_def)
qed

lemma consume_inv:
  assumes k: "0 < k"
  shows "window_inv k seen w \<Longrightarrow> c = length seen \<Longrightarrow> cutoffs_inv k c w m \<Longrightarrow>
         consume k ps c w m = (c', w', m') \<Longrightarrow>
         window_inv k (seen @ ps) w' \<and> c' = length (seen @ ps) \<and> cutoffs_inv k c' w' m'"
proof (induction ps arbitrary: seen w c m)
  case Nil
  then show ?case by simp
next
  case (Cons p ps)
  let ?w1 = "window_step k p w"
  let ?m1 = "cutoff_step k (c + 1) ?w1 m"
  have wi: "window_inv k (seen @ [p]) ?w1" by (rule window_step_inv(1) [OF k Cons.prems(1)])
  have c1: "c + 1 = length (seen @ [p])" using Cons.prems(2) by simp
  have ci: "cutoffs_inv k (c + 1) ?w1 ?m1"
    by (rule cutoff_step_inv [OF k Cons.prems(1,2,3)])
  from Cons.prems(4) have "consume k ps (c + 1) ?w1 ?m1 = (c', w', m')" by simp
  from Cons.IH [OF wi c1 ci this] show ?case by auto
qed

lemma length_pending: "stream_inv s \<Longrightarrow> length (pending s) = remaining s"
  by (simp add: pending_def remaining_inv)

lemma rankIncoming_result:
  assumes inv: "stream_inv s" and k: "0 < k"
  shows "\<exists>s' w m. rankIncoming s k = Inr (s', \<lparr>r_top = sort w, r_cutoffs = m\<rparr>) \<and>
           remaining s' = 0 \<and> window_inv k (pending s) w \<and>
           cutoffs_inv k (length (pending s)) w m"
proof -
  let ?s' = "s\<lparr>currIndex := length (stream_players s)\<rparr>"
  obtain c' w m where cons: "consume k (pending s) 0 [] Map.empty = (c', w, m)"
    by (cases "consume k (pending s) 0 [] Map.empty") auto
  from consume_inv [OF k window_inv_empty _ cutoffs_inv_empty cons]
  have wi: "window_inv k (pending s) w" and ci: "cutoffs_inv k (length (pending s)) w m"
    by auto
  have "rankIncoming_loop k s 0 [] Map.empty = Inr (?s', c', w, m)"
    using rankIncoming_loop_consume [OF inv, of k 0 "[]" Map.empty] cons
    by (simp add: pending_def)
  then have r: "rankIncoming s k = Inr (?s', \<lparr>r_top = sort w, r_cutoffs = m\<rparr>)"
    by (simp add: rankIncoming_def)
  have "stream_inv ?s'" using inv by (simp only: stream_inv_def) simp
  then have "remaining ?s' = 0" by (simp add: remaining_inv)
  with r wi ci show ?thesis by blast
qed

lemma rankIncoming_cutoff_keys:
  assumes "stream_inv stream" and "0 < reporting_interval"
  shows "\<exists>s' r. rankIncoming stream reporting_interval = Inr (s', r) \<and>
           (\<forall>c. (r_cutoffs r c \<noteq> None) =
                (0 < c \<and> c \<le> length (pending stream) \<and> c mod reporting_interval = 0))"
proof -
  from rankIncoming_result [OF assms] obtain s' w m where
    r: "rankIncoming stream reporting_interval = Inr (s', \<lparr>r_top = sort w, r_cutoffs = m\<rparr>)"
    and ci: "cutoffs_inv reporting_interval (length (pending stream)) w m"
    by blast
  from cutoffs_invD(1) [OF ci] r show ?thesis by simp
qed

text \<open>
  In general: when the number of players read is not a multiple of the reporting
  interval, the result has no cutoff keyed by that number.
\<close>

lemma rankIncoming_no_final_cutoff:
  assumes "stream_inv stream" and "0 < reporting_interval"
      and "length (pending stream) mod reporting_interval \<noteq> 0"
  shows "\<exists>s' r. rankIncoming stream reporting_interval = Inr (s', r) \<and>
           r_cutoffs r (length (pending stream)) = None"
proof -
  from rankIncoming_cutoff_keys [OF assms(1,2)] obtain s' r where
    r: "rankIncoming stream reporting_interval = Inr (s', r)"
    and keys: "\<And>c. (r_cutoffs r c \<noteq> None) =
                (0 < c \<and> c \<le> length (pending stream) \<and> c mod reporting_interval = 0)"
    by blast
  from keys [of "length (pending stream)"] assms(3)
  have "r_cutoffs r (length (pending stream)) = None" by simp
  with r show ?thesis by blast
qed

text \<open>
  Claim C4: for every stream of \<open>n\<close> players still to be read and every positive
  reporting interval \<open>k\<close>, \<open>rankIncoming\<close> returns, leaves the stream exhausted, and its
  top sequence is the end of the sorted list of those players, of length \<open>min n k\<close>:
  the \<open>min n k\<close> highest players in ascending order, hence ascending by score.
\<close>

theorem rankIncoming_top:
  assumes "stream_inv stream" and "0 < reporting_interval"
  shows "\<exists>s' r. rankIncoming stream reporting_interval = Inr (s', r) \<and> remaining s' = 0 \<and>
           length (r_top r) = min (length (pending stream)) reporting_interval \<and>
           r_top r = drop (length (pending stream) -
                           min (length (pending stream)) reporting_interval)
                       (sort (pending stream)) \<and>
           sorted (r_top r) \<and> sorted (map level (r_top r))"
proof -
  from rankIncoming_result [OF assms] obtain s' w m where
    r: "rankIncoming stream reporting_interval = Inr (s', \<lparr>r_top = sort w, r_cutoffs = m\<rparr>)"
    and e: "remaining s' = 0"
    and wi: "window_inv reporting_interval (pending stream) w"
    by blast
  from wi have "length (sort w) = min (length (pending stream)) reporting_interval"
    by (simp add: window_inv_def)
  moreover note window_inv_sort [OF wi]
  moreover have "sorted (sort w)" by simp
  moreover have "sorted (map level (sort w))" by (rule sorted_map_level) simp
  ultimately show ?thesis using r e by simp
qed

theorem rankIncoming_top_witness:
  "stream_inv (VectorPlayerStream
      [Player ''a'' 5, Player ''b'' 1, Player ''c'' 7, Player ''d'' 3, Player ''e'' 9]) \<and>
   0 < (2::nat) \<and>
   pending (VectorPlayerStream
      [Player ''a'' 5, Player ''b'' 1, Player ''c'' 7, Player ''d'' 3, Player ''e'' 9]) =
      [Player ''a'' 5, Player ''b'' 1, Player ''c'' 7, Player ''d'' 3, Player ''e'' 9] \<and>
   (case rankIncoming (VectorPlayerStream
      [Player ''a'' 5, Player ''b'' 1, Player ''c'' 7, Player ''d'' 3, Player ''e'' 9]) 2 of
      Inl e \<Rightarrow> False
    | Inr (s', r) \<Rightarrow> r_top r = [Player ''c'' 7, Player ''e'' 9]) \<and>
   (\<exists>s' r. rankIncoming (VectorPlayerStream
      [Player ''a'' 5, Player ''b'' 1, Player ''c'' 7, Player ''d'' 3, Player ''e'' 9]) 2 =
        Inr (s', r) \<and> remaining s' = 0 \<and>
      length (r_top r) = min (length (pending (VectorPlayerStream
      [Player ''a'' 5, Player ''b'' 1, Player ''c'' 7, Player ''d'' 3, Player ''e'' 9]))) 2 \<and>
      sorted (map level (r_top r)))"
proof -
  let ?s = "VectorPlayerStream
      [Player ''a'' 5, Player ''b'' 1, Player ''c'' 7, Player ''d'' 3, Player ''e'' 9]"
  have h1: "stream_inv ?s" by (simp add: stream_inv_def VectorPlayerStream_def)
  have h2: "0 < (2::nat)" by simp
  have p: "pending ?s =
      [Player ''a'' 5, Player ''b'' 1, Player ''c'' 7, Player ''d'' 3, Player ''e'' 9]"
    by (simp add: pending_def VectorPlayerStream_def)
  have c: "case rankIncoming ?s 2 of Inl e \<Rightarrow> False
    | Inr (s', r) \<Rightarrow> r_top r = [Player ''c'' 7, Player ''e'' 9]"
    by code_simp
  from h1 h2 p c rankIncoming_top [OF h1 h2] show ?thesis by blast
qed

text \<open>
  Claim C7: for every stream and every positive reporting interval, \<open>rankIncoming\<close>
  returns and the cutoff values it recorded do not decrease as the keys increase.
\<close>

theorem rankIncoming_cutoffs_monotone:
  assumes "stream_inv stream" and "0 < reporting_interval"
  shows "\<exists>s' r. rankIncoming stream reporting_interval = Inr (s', r) \<and>
           (\<forall>c1 c2 v1 v2. r_cutoffs r c1 = Some v1 \<and> r_cutoffs r c2 = Some v2 \<and> c1 < c2
              \<longrightarrow> v1 \<le> v2)"
proof -
  from rankIncoming_result [OF assms] obtain s' w m where
    r: "rankIncoming stream reporting_interval = Inr (s', \<lparr>r_top = sort w, r_cutoffs = m\<rparr>)"
    and ci: "cutoffs_inv reporting_interval (length (pending stream)) w m"
    by blast
  have "\<forall>c1 c2 v1 v2. m c1 = Some v1 \<and> m c2 = Some v2 \<and> c1 < c2 \<longrightarrow> v1 \<le> v2"
    using cutoffs_invD(3) [OF ci] by blast
  with r show ?thesis by simp
qed

theorem rankIncoming_cutoffs_monotone_witness:
  "stream_inv (VectorPlayerStream
      [Player ''a'' 5, Player ''b'' 1, Player ''c'' 7, Player ''d'' 3, Player ''e'' 9]) \<and>
   0 < (2::nat) \<and>
   (case rankIncoming (VectorPlayerStream
      [Player ''a'' 5, Player ''b'' 1, Player ''c'' 7, Player ''d'' 3, Player ''e'' 9]) 2 of
      Inl e \<Rightarrow> False
    | Inr (s', r) \<Rightarrow> r_cutoffs r 2 = Some 1 \<and> r_cutoffs r 4 = Some 5) \<and>
   (\<exists>s' r. rankIncoming (VectorPlayerStream
      [Player ''a'' 5, Player ''b'' 1, Player ''c'' 7, Player ''d'' 3, Player ''e'' 9]) 2 =
        Inr (s', r) \<and>
      (\<forall>c1 c2 v1 v2. r_cutoffs r c1 = Some v1 \<and> r_cutoffs r c2 = Some v2 \<and> c1 < c2
              \<longrightarrow> v1 \<le> v2))"
proof -
  let ?s = "VectorPlayerStream
      [Player ''a'' 5, Player ''b'' 1, Player ''c'' 7, Player ''d'' 3, Player ''e'' 9]"
  have h1: "stream_inv ?s" by (simp add: stream_inv_def VectorPlayerStream_def)
  have h2: "0 < (2::nat)" by simp
  have c: "case rankIncoming ?s 2 of Inl e \<Rightarrow> False
    | Inr (s', r) \<Rightarrow> r_cutoffs r 2 = Some 1 \<and> r_cutoffs r 4 = Some 5"
    by code_simp
  from h1 h2 c rankIncoming_cutoffs_monotone [OF h1 h2] show ?thesis by blast
qed

text \<open>
  Claim C6: the top sequence returned by \<open>heapRank\<close>, by \<open>quickSelectRank\<close> and by
  \<open>rankIncoming\<close> (which returns on every stream) is non-decreasing by score.
\<close>

theorem top_sorted:
  assumes "stream_inv stream" and "0 < reporting_interval"
  shows "sorted (map level (r_top (snd (heapRank players)))) \<and>
         sorted (map level (r_top (snd (quickSelectRank players)))) \<and>
         (\<exists>s' r. rankIncoming stream reporting_interval = Inr (s', r) \<and>
            sorted (map level (r_top r)))"
proof -
  from rankIncoming_result [OF assms] obtain s' w m where
    r: "rankIncoming stream reporting_interval = Inr (s', \<lparr>r_top = sort w, r_cutoffs = m\<rparr>)"
    by blast
  have "sorted (map level (sort w))" by (rule sorted_map_level) simp
  with r have "\<exists>s' r. rankIncoming stream reporting_interval = Inr (s', r) \<and>
            sorted (map level (r_top r))" by simp
  with offline_top_sorted [of players] show ?thesis by blast
qed

theorem top_sorted_witness:
  "stream_inv (VectorPlayerStream
      [Player ''a'' 5, Player ''b'' 1, Player ''c'' 7, Player ''d'' 3, Player ''e'' 9]) \<and>
   0 < (2::nat) \<and>
   map level (r_top (snd (heapRank
     [Player ''a'' 3, Player ''b'' 19, Player ''c'' 4, Player ''d'' 10, Player ''e'' 5,
      Player ''f'' 9, Player ''g'' 2, Player ''h'' 6, Player ''i'' 8, Player ''j'' 7,
      Player ''k'' 13, Player ''l'' 1, Player ''m'' 14, Player ''n'' 20, Player ''o'' 15,
      Player ''p'' 11, Player ''q'' 12, Player ''r'' 16, Player ''s'' 18, Player ''t'' 17]))) =
     [19, 20] \<and>
   map level (r_top (snd (quickSelectRank
     [Player ''a'' 3, Player ''b'' 19, Player ''c'' 4, Player ''d'' 10, Player ''e'' 5,
      Player ''f'' 9, Player ''g'' 2, Player ''h'' 6, Player ''i'' 8, Player ''j'' 7,
      Player ''k'' 13, Player ''l'' 1, Player ''m'' 14, Player ''n'' 20, Player ''o'' 15,
      Player ''p'' 11, Player ''q'' 12, Player ''r'' 16, Player ''s'' 18, Player ''t'' 17]))) =
     [19, 20] \<and>
   (case rankIncoming (VectorPlayerStream
      [Player ''a'' 5, Player ''b'' 1, Player ''c'' 7, Player ''d'' 3, Player ''e'' 9]) 2 of
      Inl e \<Rightarrow> False
    | Inr (s', r) \<Rightarrow> map level (r_top r) = [7, 9]) \<and>
   sorted (map level (r_top (snd (heapRank
     [Player ''a'' 3, Player ''b'' 19, Player ''c'' 4, Player ''d'' 10, Player ''e'' 5,
      Player ''f'' 9, Player ''g'' 2, Player ''h'' 6, Player ''i'' 8, Player ''j'' 7,
      Player ''k'' 13, Player ''l'' 1, Player ''m'' 14, Player ''n'' 20, Player ''o'' 15,
      Player ''p'' 11, Player ''q'' 12, Player ''r'' 16, Player ''s'' 18, Player ''t'' 17])))) \<and>
   sorted (map level (r_top (snd (quickSelectRank
     [Player ''a'' 3, Player ''b'' 19, Player ''c'' 4, Player ''d'' 10, Player ''e'' 5,
      Player ''f'' 9, Player ''g'' 2, Player ''h'' 6, Player ''i'' 8, Player ''j'' 7,
      Player ''k'' 13, Player ''l'' 1, Player ''m'' 14, Player ''n'' 20, Player ''o'' 15,
      Player ''p'' 11, Player ''q'' 12, Player ''r'' 16, Player ''s'' 18, Player ''t'' 17]))))"
proof -
  let ?s = "VectorPlayerStream
      [Player ''a'' 5, Player ''b'' 1, Player ''c'' 7, Player ''d'' 3, Player ''e'' 9]"
  let ?ps = "[Player ''a'' 3, Player ''b'' 19, Player ''c'' 4, Player ''d'' 10, Player ''e'' 5,
      Player ''f'' 9, Player ''g'' 2, Player ''h'' 6, Player ''i'' 8, Player ''j'' 7,
      Player ''k'' 13, Player ''l'' 1, Player ''m'' 14, Player ''n'' 20, Player ''o'' 15,
      Player ''p'' 11, Player ''q'' 12, Player ''r'' 16, Player ''s'' 18, Player ''t'' 17]"
  have h1: "stream_inv ?s" by (simp add: stream_inv_def VectorPlayerStream_def)
  have h2: "0 < (2::nat)" by simp
  have a: "map level (r_top (snd (heapRank ?ps))) = [19, 20]"
    unfolding heapRank_top by code_simp
  have b: "map level (r_top (snd (quickSelectRank ?ps))) = [19, 20]" by code_simp
  have c: "case rankIncoming ?s 2 of Inl e \<Rightarrow> False
    | Inr (s', r) \<Rightarrow> map level (r_top r) = [7, 9]"
    by code_simp
  from h1 h2 a b c top_sorted [OF h1 h2, of ?ps] show ?thesis by blast
qed

end
